theory Spec2Isabelle
  imports Main
begin

section \<open>Wikimash: bidirectional search over the hyperlink graph\<close>

text \<open>
  The development embeds the search engine of \<^verbatim>\<open>wikimash.js\<close>: the
  \<^verbatim>\<open>LinkFetcher\<close> (batching, pagination cursors, demotion), the
  \<^verbatim>\<open>ArticleTree\<close> (one directional frontier) and \<^verbatim>\<open>wikigameSolve\<close>
  (the orchestrator).

  Conventions of the embedding.
  \<^item> A title is a \<open>string\<close>, read as the UTF-8 bytes of the JavaScript string.
  \<^item> A JavaScript object used as a dictionary is a map over its own properties, and an
    assignment \<^verbatim>\<open>obj[key] = value\<close> is the update of that map. The operator
    \<^verbatim>\<open>in\<close> also sees the names that every object inherits from
    \<^verbatim>\<open>Object.prototype\<close>: it is \<open>inherited\<close> below, next to the own properties.
  \<^item> The link map of a response, whose enumeration order matters, is the association list
    of its own properties in the order of their creation, with distinct keys;
    \<^verbatim>\<open>Object.keys\<close> enumerates it as \<open>objectEntries\<close> does.
  \<^item> \<^verbatim>\<open>undefined\<close> is \<open>None\<close>.
  \<^item> A call of the MediaWiki API is a call of a function parameter, the link source; a
    promise is the value it resolves to, and a rejection or exception is \<open>Inl\<close> of an
    \<open>error\<close>. Calls are sequential: no call starts while another one is pending, so the
    fields \<^verbatim>\<open>linkPromise\<close> and \<^verbatim>\<open>explorePromise\<close>, which are
    \<^verbatim>\<open>undefined\<close> between two calls, are not part of the state.
\<close>

subsection \<open>Percent encoding\<close>

text \<open>
  \<^verbatim>\<open>encodeURIComponent\<close> keeps the unreserved characters
  \<^verbatim>\<open>A-Z a-z 0-9 - _ . ! ~ * ' ( )\<close> and writes every other byte of the UTF-8
  encoding as \<^verbatim>\<open>%XX\<close>.
\<close>

definition uriUnreserved :: "char \<Rightarrow> bool" where
  "uriUnreserved c \<longleftrightarrow>
     c \<in> set ''ABCDEFGHIJKLMNOPQRSTUVWXYZabcdefghijklmnopqrstuvwxyz0123456789-_.!~*()''
     \<or> c = CHR 0x27"

definition hexDigit :: "nat \<Rightarrow> char" where
  "hexDigit n = ''0123456789ABCDEF'' ! (n mod 16)"

definition encodeChar :: "char \<Rightarrow> string" where
  "encodeChar c =
     (if uriUnreserved c then [c]
      else [CHR ''%'', hexDigit (of_char c div 16), hexDigit (of_char c mod 16)])"

definition encodeURIComponent :: "string \<Rightarrow> string" where
  "encodeURIComponent s = concat (map encodeChar s)"

subsection \<open>Data model\<close>

datatype direction = Forward | Backward

datatype error = TransportError | DeadEnd | InvalidTitle | TypeError

record batch =
  articles :: "string list"
  titlesParam :: string
  continueParam :: "string option"

text \<open>
  The undesirable stack holds what \<^verbatim>\<open>splice(...)[0]\<close> returned, which is
  \<^verbatim>\<open>undefined\<close> when the index was out of range: its elements are optional.
\<close>

record LinkFetcher =
  direction :: direction
  batchIndex :: nat
  lastBatchIndex :: "nat option"
  batches :: "batch list"
  undesirableBatchStack :: "batch option list"

record response =
  linkMap :: "(string \<times> string list) list"
  cursor :: "string option"

type_synonym LinkSource = "direction \<Rightarrow> string \<Rightarrow> string option \<Rightarrow> error + response"

definition LinkFetcher_new :: "direction \<Rightarrow> LinkFetcher" where
  "LinkFetcher_new d =
     \<lparr>direction = d, batchIndex = 0, lastBatchIndex = None, batches = [],
      undesirableBatchStack = []\<rparr>"

subsection \<open>JavaScript objects\<close>

text \<open>
  The objects \<^verbatim>\<open>treeObj\<close>, \<^verbatim>\<open>fringe\<close>, \<^verbatim>\<open>depthMap\<close> and
  \<^verbatim>\<open>linkMap\<close> are created by \<^verbatim>\<open>{}\<close>, so their prototype is
  \<^verbatim>\<open>Object.prototype\<close>, and \<^verbatim>\<open>key in obj\<close> holds for each of its property
  names whether or not \<open>obj\<close> has the key itself.
\<close>

definition objectPrototypeNames :: "string list" where
  "objectPrototypeNames =
     [''constructor'', ''__defineGetter__'', ''__defineSetter__'', ''hasOwnProperty'',
      ''__lookupGetter__'', ''__lookupSetter__'', ''isPrototypeOf'', ''propertyIsEnumerable'',
      ''toString'', ''valueOf'', ''__proto__'', ''toLocaleString'']"

definition inherited :: "string \<Rightarrow> bool" where
  "inherited key \<longleftrightarrow> key \<in> set objectPrototypeNames"

text \<open>
  \<^verbatim>\<open>Object.keys\<close> lists the keys that are array indices first, in ascending numeric
  order, and then the other keys in the order of their creation. An array index is the
  canonical decimal numeral of a number below \<open>2 ^ 32 - 1\<close>.
\<close>

definition isDigit :: "char \<Rightarrow> bool" where
  "isDigit c \<longleftrightarrow> c \<in> set ''0123456789''"

definition digitsValue :: "string \<Rightarrow> nat" where
  "digitsValue key = foldl (\<lambda>n c. 10 * n + (of_char c - 48)) 0 key"

definition arrayIndex :: "string \<Rightarrow> nat option" where
  "arrayIndex key =
     (if key \<noteq> [] \<and> list_all isDigit key \<and> (key = ''0'' \<or> hd key \<noteq> CHR ''0'')
         \<and> digitsValue key < 2 ^ 32 - 1
      then Some (digitsValue key) else None)"

definition objectEntries :: "(string \<times> 'a) list \<Rightarrow> (string \<times> 'a) list" where
  "objectEntries obj =
     sort_key (\<lambda>entry. the (arrayIndex (fst entry)))
       (filter (\<lambda>entry. arrayIndex (fst entry) \<noteq> None) obj)
     @ filter (\<lambda>entry. arrayIndex (fst entry) = None) obj"

subsection \<open>LinkFetcher.addArticles\<close>

text \<open>
  The inner \<^verbatim>\<open>for\<close> loop: \<open>i\<close> is the loop index, \<open>b\<close> the batch under
  construction and \<open>encodedParamLength\<close> the running encoded length. The index stays below
  \<open>titleCount \<le> length articles\<close>, so \<open>as ! i\<close> is in range.
\<close>

function addArticles_for ::
  "string list \<Rightarrow> nat \<Rightarrow> nat \<Rightarrow> batch \<Rightarrow> nat \<Rightarrow> nat \<times> batch" where
  "addArticles_for as titleCount i b encodedParamLength =
     (if i < titleCount \<and> encodedParamLength < 1500
      then addArticles_for as titleCount (i + 1)
             (b\<lparr>articles := articles b @ [as ! i],
                titlesParam := titlesParam b @ ''|'' @ as ! i\<rparr>)
             (encodedParamLength + length (encodeURIComponent (''|'' @ as ! i)))
      else (i, b))"
  by pat_completeness auto
termination
  by (relation "measure (\<lambda>(as, titleCount, i, b, e). titleCount - i)") auto

lemma addArticles_for_index: "i \<le> fst (addArticles_for as n i b e)"
proof (induction as n i b e rule: addArticles_for.induct)
  case (1 as n i b e)
  show ?case
  proof (cases "i < n \<and> e < 1500")
    case True
    with 1 show ?thesis by (simp del: addArticles_for.simps add: addArticles_for.simps [of as n i])
  next
    case False
    then show ?thesis by simp
  qed
qed

text \<open>One turn of the outer \<^verbatim>\<open>while\<close> loop: the new batch and the loop index.\<close>

definition addArticles_batch :: "string list \<Rightarrow> nat \<times> batch" where
  "addArticles_batch as =
     addArticles_for as (min 50 (length as)) 1
       \<lparr>articles = [], titlesParam = hd as, continueParam = None\<rparr>
       (length (encodeURIComponent (hd as)))"

function addArticles_while :: "string list \<Rightarrow> batch list \<Rightarrow> batch list" where
  "addArticles_while as bs =
     (if as = [] then bs
      else addArticles_while (drop (fst (addArticles_batch as)) as)
             (bs @ [snd (addArticles_batch as)]))"
  by pat_completeness auto
termination
proof (relation "measure (\<lambda>(as, bs). length as)")
  show "wf (measure (\<lambda>(as, bs). length as))" by simp
next
  fix as :: "string list" and bs :: "batch list"
  assume "as \<noteq> []"
  moreover have "1 \<le> fst (addArticles_batch as)"
    unfolding addArticles_batch_def by (rule addArticles_for_index)
  ultimately show "((drop (fst (addArticles_batch as)) as, bs @ [snd (addArticles_batch as)]),
      (as, bs)) \<in> measure (\<lambda>(as, bs). length as)"
    by (cases as) auto
qed

definition addArticles :: "string list \<Rightarrow> LinkFetcher \<Rightarrow> LinkFetcher" where
  "addArticles as lf = lf\<lparr>batches := addArticles_while as (batches lf)\<rparr>"

subsection \<open>LinkFetcher.fetch\<close>

definition complete :: "LinkFetcher \<Rightarrow> bool" where
  "complete lf \<longleftrightarrow> length (batches lf) = 0 \<and> length (undesirableBatchStack lf) = 0"

definition noDesirableBatches :: "LinkFetcher \<Rightarrow> bool" where
  "noDesirableBatches lf \<longleftrightarrow> length (batches lf) = 0"

text \<open>
  The choice of \<^verbatim>\<open>currentBatch\<close>: round robin over the active rotation, or, when
  the rotation is empty, the top of the undesirable stack, which is pushed back on the
  rotation. The result is the chosen batch (\<open>None\<close> for \<^verbatim>\<open>undefined\<close>) and the
  updated fetcher.
\<close>

definition fetch_select :: "LinkFetcher \<Rightarrow> batch option \<times> LinkFetcher" where
  "fetch_select lf =
     (if length (batches lf) > 0
      then (let i = (batchIndex lf + 1) mod length (batches lf)
            in (Some (batches lf ! i), lf\<lparr>batchIndex := i\<rparr>))
      else (case (if undesirableBatchStack lf = [] then None else last (undesirableBatchStack lf)) of
              None \<Rightarrow> (None, lf\<lparr>undesirableBatchStack := butlast (undesirableBatchStack lf)\<rparr>)
            | Some b \<Rightarrow>
                (Some b, lf\<lparr>undesirableBatchStack := butlast (undesirableBatchStack lf),
                             batches := batches lf @ [b], batchIndex := 0\<rparr>)))"

text \<open>
  A request is what \<^verbatim>\<open>getLinks\<close> or \<^verbatim>\<open>getBacklinks\<close> receives: the
  direction, \<^verbatim>\<open>titlesParam\<close> and \<^verbatim>\<open>continueParam\<close> of the chosen batch.
  \<open>fetch_start\<close> is \<^verbatim>\<open>fetch\<close> up to that call: \<open>Immediate\<close> is the promise
  resolved at once with an empty link map, \<open>Issued\<close> the request sent for the chosen
  batch, \<open>Thrown\<close> the exception of reading a field of \<^verbatim>\<open>undefined\<close>.
\<close>

type_synonym request = "direction \<times> string \<times> string option"

datatype started = Immediate | Issued batch request | Thrown error

definition fetch_start :: "LinkFetcher \<Rightarrow> started \<times> LinkFetcher" where
  "fetch_start lf =
     (if complete lf then (Immediate, lf)
      else (case fetch_select lf of
              (None, lf') \<Rightarrow> (Thrown TypeError, lf')
            | (Some b, lf') \<Rightarrow>
                (Issued b (direction lf', titlesParam b, continueParam b), lf')))"

text \<open>
  The loop \<^verbatim>\<open>currentBatch.articles.forEach\<close> that adds an empty link list for
  every article that is not \<^verbatim>\<open>in\<close> the link map. The new property is created
  last.
\<close>

fun synthesize :: "string list \<Rightarrow> (string \<times> string list) list \<Rightarrow> (string \<times> string list) list" where
  "synthesize [] lm = lm"
| "synthesize (a # as) lm =
     synthesize as (if a \<in> fst ` set lm \<or> inherited a then lm else lm @ [(a, [])])"

text \<open>
  A cursor is truthy in JavaScript when it is a non-empty string.
\<close>

definition truthy :: "string option \<Rightarrow> bool" where
  "truthy c \<longleftrightarrow> (case c of None \<Rightarrow> False | Some s \<Rightarrow> s \<noteq> [])"

text \<open>
  The callback of \<^verbatim>\<open>fetch\<close> on the response. \<open>currentBatch\<close> is the batch chosen
  by \<open>fetch_select\<close>, which stands at \<open>batchIndex\<close> in the rotation; assigning its cursor
  updates it there.
\<close>

definition fetch_then ::
  "LinkFetcher \<Rightarrow> batch \<Rightarrow> response \<Rightarrow> (string \<times> string list) list \<times> LinkFetcher" where
  "fetch_then lf currentBatch r =
     (if truthy (cursor r)
      then (linkMap r,
            lf\<lparr>batches := (batches lf)[batchIndex lf := currentBatch\<lparr>continueParam := cursor r\<rparr>],
               lastBatchIndex := Some (batchIndex lf)\<rparr>)
      else (synthesize (articles currentBatch) (linkMap r),
            lf\<lparr>batches := take (batchIndex lf) (batches lf) @ drop (Suc (batchIndex lf)) (batches lf),
               lastBatchIndex := None\<rparr>))"

definition fetch :: "LinkSource \<Rightarrow> LinkFetcher \<Rightarrow> error + (string \<times> string list) list \<times> LinkFetcher" where
  "fetch src lf =
     (case fetch_start lf of
        (Immediate, lf') \<Rightarrow> Inr ([], lf')
      | (Thrown e, lf') \<Rightarrow> Inl e
      | (Issued b (d, t, c), lf') \<Rightarrow>
          (case src d t c of
             Inl e \<Rightarrow> Inl e
           | Inr r \<Rightarrow> Inr (fetch_then lf' b r)))"

subsection \<open>Demotion\<close>

definition markLastBatchUndesirable :: "LinkFetcher \<Rightarrow> LinkFetcher" where
  "markLastBatchUndesirable lf =
     (case lastBatchIndex lf of
        None \<Rightarrow> lf
      | Some i \<Rightarrow>
          lf\<lparr>batches := take i (batches lf) @ drop (Suc i) (batches lf),
             undesirableBatchStack := undesirableBatchStack lf @
               [if i < length (batches lf) then Some (batches lf ! i) else None],
             lastBatchIndex := None\<rparr>)"

definition markAllBatchesUndesirable :: "LinkFetcher \<Rightarrow> LinkFetcher" where
  "markAllBatchesUndesirable lf =
     lf\<lparr>undesirableBatchStack := undesirableBatchStack lf @ map Some (batches lf),
        batches := [],
        lastBatchIndex := None\<rparr>"

subsection \<open>ArticleTree\<close>

text \<open>
  A depth is a JavaScript number: \<open>NaN\<close> is what \<^verbatim>\<open>undefined + 1\<close> gives when the
  parent has no depth. It also stands for the string that \<^verbatim>\<open>+ 1\<close> builds from the
  value inherited under the parent's name when that name is \<open>inherited\<close> and not a key of
  \<^verbatim>\<open>depthMap\<close>: that string is no number either, and it compares and indexes as
  \<open>NaN\<close> does. The constructor enters the root by assignment, which creates an own
  property under every name but \<^verbatim>\<open>__proto__\<close>; a tree with that root, which is no
  title of MediaWiki, is outside the model. The tree's own \<^verbatim>\<open>direction\<close> field, a copy of its
  fetcher's that is only logged, is left out; \<^verbatim>\<open>size\<close> is \<open>treeSize\<close>.
\<close>

datatype jsnum = Num nat | NaN

record ArticleTree =
  treeObj :: "string \<rightharpoonup> string"
  fringe :: "string set"
  fringeSize :: int
  depthMap :: "string \<rightharpoonup> jsnum"
  linkFetcher :: LinkFetcher
  toExplore :: "string list"
  treeSize :: nat
  layerSizes :: "nat list"
  consecutiveUndesirableBatches :: nat

definition ArticleTree_new :: "string \<Rightarrow> direction \<Rightarrow> ArticleTree" where
  "ArticleTree_new rootPageTitle d =
     \<lparr>treeObj = [rootPageTitle \<mapsto> ''_root''],
      fringe = {rootPageTitle},
      fringeSize = 1,
      depthMap = [rootPageTitle \<mapsto> Num 0],
      linkFetcher = addArticles [rootPageTitle] (LinkFetcher_new d),
      toExplore = [],
      treeSize = 1,
      layerSizes = [1],
      consecutiveUndesirableBatches = 0\<rparr>"

text \<open>\<^verbatim>\<open>title in this.treeObj\<close>.\<close>

definition containsPage :: "ArticleTree \<Rightarrow> string \<Rightarrow> bool" where
  "containsPage t title \<longleftrightarrow> title \<in> dom (treeObj t) \<or> inherited title"

definition diversify :: "ArticleTree \<Rightarrow> ArticleTree" where
  "diversify t = t\<lparr>linkFetcher := addArticles (toExplore t) (linkFetcher t), toExplore := []\<rparr>"

text \<open>
  The body of \<^verbatim>\<open>childTitles.forEach\<close>, on the tree and the list
  \<^verbatim>\<open>newTitles\<close>. A \<open>NaN\<close> depth is below no length and indexes no layer, so it
  leaves \<^verbatim>\<open>layerSizes\<close> as an array unchanged.
\<close>

definition insertChild :: "string \<Rightarrow> string \<Rightarrow> ArticleTree \<times> string list \<Rightarrow> ArticleTree \<times> string list" where
  "insertChild parentTitle childTitle s =
     (case s of (t, newTitles) \<Rightarrow>
        (let childDepth = (case depthMap t parentTitle of Some (Num d) \<Rightarrow> Num (d + 1) | _ \<Rightarrow> NaN)
         in (t\<lparr>treeObj := (treeObj t)(childTitle \<mapsto> parentTitle),
               fringe := insert childTitle (fringe t),
               depthMap := (depthMap t)(childTitle \<mapsto> childDepth),
               toExplore := toExplore t @ [childTitle],
               layerSizes :=
                 (case childDepth of
                    NaN \<Rightarrow> layerSizes t
                  | Num d \<Rightarrow>
                      (let padded = layerSizes t @ replicate (Suc d - length (layerSizes t)) 0
                       in padded[d := padded ! d + 1]))\<rparr>,
             newTitles @ [childTitle])))"

text \<open>
  The body of \<^verbatim>\<open>parentTitles.forEach\<close>, for one entry of the link map. The test
  \<^verbatim>\<open>parentTitle in self.fringe\<close> also holds for an inherited name;
  \<^verbatim>\<open>delete\<close> then removes nothing and the counter is decremented all the same.
\<close>

definition exploreParent :: "string \<times> string list \<Rightarrow> ArticleTree \<times> string list \<Rightarrow> ArticleTree \<times> string list" where
  "exploreParent entry s =
     (case (entry, s) of ((parentTitle, childTitles), (t, newTitles)) \<Rightarrow>
        (let t1 = (if parentTitle \<in> fringe t \<or> inherited parentTitle
                   then t\<lparr>fringe := fringe t - {parentTitle}, fringeSize := fringeSize t - 1\<rparr>
                   else t)
         in fold (insertChild parentTitle)
              (filter (\<lambda>childTitle. \<not> containsPage t1 childTitle) childTitles)
              (t1, newTitles)))"

text \<open>The yield policy at the end of the callback, on the number of new titles.\<close>

definition yieldPolicy :: "nat \<Rightarrow> ArticleTree \<Rightarrow> ArticleTree" where
  "yieldPolicy n t =
     (if n < 10
      then (let t1 = t\<lparr>linkFetcher := markLastBatchUndesirable (linkFetcher t),
                       consecutiveUndesirableBatches := consecutiveUndesirableBatches t + 1\<rparr>
            in if consecutiveUndesirableBatches t1 \<ge> 4
               then t1\<lparr>consecutiveUndesirableBatches := 0,
                       linkFetcher := markAllBatchesUndesirable (linkFetcher t1)\<rparr>
               else t1)
      else t\<lparr>consecutiveUndesirableBatches := 0\<rparr>)"

text \<open>
  The callback of \<^verbatim>\<open>explore\<close> on the link map, whose entries it visits in the
  order of \<^verbatim>\<open>Object.keys\<close>.
\<close>

definition explore_then :: "ArticleTree \<Rightarrow> (string \<times> string list) list \<Rightarrow> string list \<times> ArticleTree" where
  "explore_then t lm =
     (case fold exploreParent (objectEntries lm) (t, []) of (t1, newTitles) \<Rightarrow>
        (let t2 = yieldPolicy (length newTitles) t1
         in (newTitles,
             t2\<lparr>treeSize := treeSize t2 + length newTitles,
                fringeSize := fringeSize t2 + int (length newTitles)\<rparr>)))"

definition explore :: "LinkSource \<Rightarrow> ArticleTree \<Rightarrow> error + string list \<times> ArticleTree" where
  "explore src t =
     (let t0 = (if noDesirableBatches (linkFetcher t) then diversify t else t)
      in if noDesirableBatches (linkFetcher t) \<and> complete (linkFetcher t0) then Inl DeadEnd
         else (case fetch src (linkFetcher t0) of
                 Inl e \<Rightarrow> Inl e
               | Inr (lm, lf) \<Rightarrow> Inr (explore_then (t0\<lparr>linkFetcher := lf\<rparr>) lm)))"

subsection \<open>ArticleTree.pathToRoot\<close>

text \<open>
  The \<^verbatim>\<open>while\<close> loop may run forever: \<open>None\<close> is not returning. Where a parent
  pointer leaves the tree, JavaScript goes on with \<^verbatim>\<open>undefined\<close> as the title and
  pushes it on the path; no list of titles is returned, which is \<open>None\<close> here too. The
  same holds where the title is no key of \<^verbatim>\<open>treeObj\<close> but an inherited name: the
  guard of \<^verbatim>\<open>pathToRoot\<close> lets it pass, the loop reads the inherited function in
  place of a parent and goes on from there with \<^verbatim>\<open>undefined\<close>.
\<close>

partial_function (option) pathToRoot_while ::
  "(string \<rightharpoonup> string) \<Rightarrow> string \<Rightarrow> string list \<Rightarrow> string list option" where
  "pathToRoot_while tr title path =
     (if tr title \<noteq> Some ''_root''
      then (case tr title of
              None \<Rightarrow> None
            | Some parent \<Rightarrow> pathToRoot_while tr parent (path @ [parent]))
      else Some path)"

declare pathToRoot_while.simps [code]

definition pathToRoot :: "ArticleTree \<Rightarrow> string \<Rightarrow> (error + string list) option" where
  "pathToRoot t title =
     (if \<not> containsPage t title then Some (Inl InvalidTitle)
      else map_option Inr (pathToRoot_while (treeObj t) title []))"

subsection \<open>wikigameSolve\<close>

text \<open>
  \<^verbatim>\<open>Number.MAX_VALUE\<close> is the integer \<open>2 ^ 1024 - 2 ^ 971\<close>. The variable
  \<^verbatim>\<open>bestCollisionDistance\<close> is initialised with it and never assigned again.
\<close>

definition Number_MAX_VALUE :: nat where
  "Number_MAX_VALUE = 2 ^ 1024 - 2 ^ 971"

text \<open>
  The loop \<^verbatim>\<open>newArticles.forEach\<close> of the orchestrator, on the variable
  \<^verbatim>\<open>collision\<close>.
\<close>

fun findCollision ::
  "ArticleTree \<Rightarrow> ArticleTree \<Rightarrow> ArticleTree \<Rightarrow> string list \<Rightarrow> string option
     \<Rightarrow> (error + string option) option" where
  "findCollision forwardTree backwardTree compareTree [] collision = Some (Inr collision)"
| "findCollision forwardTree backwardTree compareTree (newArticle # rest) collision =
     (if containsPage compareTree newArticle
      then (case pathToRoot forwardTree newArticle of
              None \<Rightarrow> None
            | Some (Inl e) \<Rightarrow> Some (Inl e)
            | Some (Inr pf) \<Rightarrow>
                (case pathToRoot backwardTree newArticle of
                   None \<Rightarrow> None
                 | Some (Inl e) \<Rightarrow> Some (Inl e)
                 | Some (Inr pb) \<Rightarrow>
                     (let bestCollisionDistance = Number_MAX_VALUE;
                          collisionDistance = length pf + length pb
                      in findCollision forwardTree backwardTree compareTree rest
                           (if collisionDistance < bestCollisionDistance
                            then Some newArticle else collision))))
      else findCollision forwardTree backwardTree compareTree rest collision)"

text \<open>
  The recursive function \<^verbatim>\<open>algorithm\<close>; the progress callback only reports.
  It returns the collision and the two trees as they are then.
\<close>

partial_function (option) algorithm ::
  "LinkSource \<Rightarrow> ArticleTree \<Rightarrow> ArticleTree \<Rightarrow> (error + string \<times> ArticleTree \<times> ArticleTree) option" where
  "algorithm src forwardTree backwardTree =
     (if fringeSize forwardTree \<le> fringeSize backwardTree
      then (case explore src forwardTree of
              Inl e \<Rightarrow> Some (Inl e)
            | Inr (newArticles, forwardTree') \<Rightarrow>
                (case findCollision forwardTree' backwardTree backwardTree newArticles None of
                   None \<Rightarrow> None
                 | Some (Inl e) \<Rightarrow> Some (Inl e)
                 | Some (Inr collision) \<Rightarrow>
                     (if truthy collision
                      then Some (Inr (the collision, forwardTree', backwardTree))
                      else algorithm src forwardTree' backwardTree)))
      else (case explore src backwardTree of
              Inl e \<Rightarrow> Some (Inl e)
            | Inr (newArticles, backwardTree') \<Rightarrow>
                (case findCollision forwardTree backwardTree' forwardTree newArticles None of
                   None \<Rightarrow> None
                 | Some (Inl e) \<Rightarrow> Some (Inl e)
                 | Some (Inr collision) \<Rightarrow>
                     (if truthy collision
                      then Some (Inr (the collision, forwardTree, backwardTree'))
                      else algorithm src forwardTree backwardTree'))))"

declare algorithm.simps [code]

text \<open>The path built from the collision once \<^verbatim>\<open>algorithm\<close> has returned it.\<close>

definition buildPath :: "ArticleTree \<Rightarrow> ArticleTree \<Rightarrow> string \<Rightarrow> (error + string list) option" where
  "buildPath forwardTree backwardTree collision =
     (case pathToRoot forwardTree collision of
        None \<Rightarrow> None
      | Some (Inl e) \<Rightarrow> Some (Inl e)
      | Some (Inr pf) \<Rightarrow>
          (case pathToRoot backwardTree collision of
             None \<Rightarrow> None
           | Some (Inl e) \<Rightarrow> Some (Inl e)
           | Some (Inr pb) \<Rightarrow> Some (Inr ((rev pf @ [collision]) @ pb))))"

definition wikigameSolve :: "LinkSource \<Rightarrow> string \<Rightarrow> string \<Rightarrow> (error + string list) option" where
  "wikigameSolve src start end =
     (case algorithm src (ArticleTree_new start Forward) (ArticleTree_new end Backward) of
        None \<Rightarrow> None
      | Some (Inl e) \<Rightarrow> Some (Inl e)
      | Some (Inr (collision, forwardTree, backwardTree)) \<Rightarrow>
          buildPath forwardTree backwardTree collision)"

section \<open>Vocabulary of the properties\<close>

subsection \<open>Titles of a batch\<close>

text \<open>
  The titles of a batch are joined by bars in \<^verbatim>\<open>titlesParam\<close>; the server splits
  the parameter at every bar. \<open>bars xs\<close> is what the inner loop appends for the titles
  \<open>xs\<close>, \<open>joinTitles\<close> the whole parameter of a chunk of titles, \<open>batchOf\<close> the
  batch that \<^verbatim>\<open>addArticles\<close> builds from a chunk, and \<open>splitTitles\<close> the titles that
  a parameter names.
\<close>

definition bars :: "string list \<Rightarrow> string" where
  "bars xs = concat (map (\<lambda>x. ''|'' @ x) xs)"

definition joinTitles :: "string list \<Rightarrow> string" where
  "joinTitles xs = (case xs of [] \<Rightarrow> [] | x # ys \<Rightarrow> x @ bars ys)"

abbreviation encodedLength :: "string \<Rightarrow> nat" where
  "encodedLength s \<equiv> length (encodeURIComponent s)"

definition batchOf :: "string list \<Rightarrow> batch" where
  "batchOf c = \<lparr>articles = tl c, titlesParam = joinTitles c, continueParam = None\<rparr>"

fun splitTitles :: "string \<Rightarrow> string list" where
  "splitTitles [] = [[]]"
| "splitTitles (c # cs) =
     (if c = CHR ''|'' then [] # splitTitles cs
      else (case splitTitles cs of [] \<Rightarrow> [[c]] | x # xs \<Rightarrow> (c # x) # xs))"

subsection \<open>Batches held by a fetcher\<close>

text \<open>
  \<open>held\<close> are the batches of a fetcher, in the rotation or on the stack.
  \<open>undisturbed x\<close> relates a fetcher to what it may become between two fetches of the
  batch \<open>x\<close>: new batches, demotions, and fetches of other batches against any link
  source.
\<close>

definition held :: "LinkFetcher \<Rightarrow> batch set" where
  "held lf = set (batches lf) \<union> {b. Some b \<in> set (undesirableBatchStack lf)}"

inductive undisturbed :: "batch \<Rightarrow> LinkFetcher \<Rightarrow> LinkFetcher \<Rightarrow> bool" for x :: batch where
  same: "undisturbed x lf lf"
| added: "undisturbed x lf lf' \<Longrightarrow> undisturbed x lf (addArticles as lf')"
| marked: "undisturbed x lf lf' \<Longrightarrow> undisturbed x lf (markLastBatchUndesirable lf')"
| marked_all: "undisturbed x lf lf' \<Longrightarrow> undisturbed x lf (markAllBatchesUndesirable lf')"
| fetched_other:
    "undisturbed x lf lf' \<Longrightarrow> fetch_start lf' = (Issued b req, lf1) \<Longrightarrow> b \<noteq> x \<Longrightarrow>
       fetch src lf' = Inr (lm, lf2) \<Longrightarrow> undisturbed x lf lf2"

subsection \<open>Honest link sources and the trees built against them\<close>

text \<open>
  A title is well formed when it is not the sentinel \<^verbatim>\<open>_root\<close> and has no bar, the
  separator of \<^verbatim>\<open>titlesParam\<close> (MediaWiki turns underscores into spaces and forbids
  bars in titles). A link source is honest when the keys of every link map it returns
  are among the queried titles and every title it returns is well formed.
\<close>

definition wellformed :: "string \<Rightarrow> bool" where
  "wellformed x \<longleftrightarrow> x \<noteq> ''_root'' \<and> CHR ''|'' \<notin> set x"

definition honest :: "LinkSource \<Rightarrow> bool" where
  "honest src \<longleftrightarrow>
     (\<forall>d tp c r. src d tp c = Inr r \<longrightarrow>
        (\<forall>e\<in>set (linkMap r). fst e \<in> set (splitTitles tp) \<and> (\<forall>x\<in>set (snd e). wellformed x)))"

text \<open>
  The invariant of the parent and depth maps of a tree with root \<open>r\<close>: the root points
  to the sentinel and has depth zero, no page is titled like the sentinel, and every other
  title has its parent in the tree, one level above.
\<close>

definition tree_inv :: "string \<Rightarrow> ArticleTree \<Rightarrow> bool" where
  "tree_inv r t \<longleftrightarrow>
     treeObj t r = Some ''_root'' \<and> depthMap t r = Some (Num 0) \<and> ''_root'' \<notin> dom (treeObj t) \<and>
     (\<forall>x p. treeObj t x = Some p \<and> x \<noteq> r \<longrightarrow>
        p \<in> dom (treeObj t) \<and> (\<exists>d. depthMap t p = Some (Num d) \<and> depthMap t x = Some (Num (Suc d))))"

text \<open>
  The first half of the body of \<^verbatim>\<open>parentTitles.forEach\<close>, which takes the parent
  off the fringe.
\<close>

definition exploreParent_tree :: "string \<Rightarrow> ArticleTree \<Rightarrow> ArticleTree" where
  "exploreParent_tree parentTitle t =
     (if parentTitle \<in> fringe t \<or> inherited parentTitle
      then t\<lparr>fringe := fringe t - {parentTitle}, fringeSize := fringeSize t - 1\<rparr> else t)"

text \<open>
  An entry of a link map is harmless for a tree when it has no children, or its parent
  is in the tree and its children are well formed. A tree is in order when its maps
  satisfy the invariant, its titles have no bar, and the titles queued for expansion and
  those of every held batch are in the tree.
\<close>

definition entry_ok :: "ArticleTree \<Rightarrow> string \<times> string list \<Rightarrow> bool" where
  "entry_ok t e \<longleftrightarrow> snd e = [] \<or> fst e \<in> dom (treeObj t) \<and> ''_root'' \<notin> set (snd e)"

definition entry_good :: "ArticleTree \<Rightarrow> string \<times> string list \<Rightarrow> bool" where
  "entry_good t e \<longleftrightarrow> snd e = [] \<or> fst e \<in> dom (treeObj t) \<and> (\<forall>x\<in>set (snd e). wellformed x)"

definition fold_ok :: "ArticleTree \<times> string list \<Rightarrow> bool" where
  "fold_ok s \<longleftrightarrow>
     set (toExplore (fst s)) \<subseteq> dom (treeObj (fst s)) \<and>
     set (snd s) \<subseteq> dom (treeObj (fst s)) \<and>
     (\<forall>x\<in>dom (treeObj (fst s)). CHR ''|'' \<notin> set x)"

definition tree_ok :: "string \<Rightarrow> ArticleTree \<Rightarrow> bool" where
  "tree_ok r t \<longleftrightarrow>
     tree_inv r t \<and>
     (\<forall>x\<in>dom (treeObj t). CHR ''|'' \<notin> set x) \<and>
     set (toExplore t) \<subseteq> dom (treeObj t) \<and>
     (\<forall>b\<in>held (linkFetcher t). set (splitTitles (titlesParam b)) \<subseteq> dom (treeObj t))"

text \<open>
  One step of a tree that succeeds, as a function, for building examples.
\<close>

definition explore_tree :: "LinkSource \<Rightarrow> ArticleTree \<Rightarrow> ArticleTree" where
  "explore_tree src t = (case explore src t of Inr (new, t') \<Rightarrow> t' | Inl e \<Rightarrow> t)"

text \<open>
  The trees the program builds from a well-formed root against honest link sources, and
  the trees that a tree can become by further steps against any link sources.
\<close>

inductive reachable :: "string \<Rightarrow> ArticleTree \<Rightarrow> bool" for r :: string where
  start: "wellformed r \<Longrightarrow> reachable r (ArticleTree_new r d)"
| step: "reachable r t \<Longrightarrow> honest src \<Longrightarrow> explore src t = Inr (new, t') \<Longrightarrow> reachable r t'"

inductive later :: "ArticleTree \<Rightarrow> ArticleTree \<Rightarrow> bool" for t :: ArticleTree where
  now: "later t t"
| after: "later t t1 \<Longrightarrow> explore src t1 = Inr (new, t2) \<Longrightarrow> later t t2"

text \<open>
  The chain of ancestors of a title: nearest parent first, up to and excluding the
  sentinel.
\<close>

fun ancestorChain :: "(string \<rightharpoonup> string) \<Rightarrow> string \<Rightarrow> string list \<Rightarrow> bool" where
  "ancestorChain tr x [] \<longleftrightarrow> tr x = Some ''_root''"
| "ancestorChain tr x (p # ps) \<longleftrightarrow> tr x = Some p \<and> p \<noteq> ''_root'' \<and> ancestorChain tr p ps"

section \<open>Examples\<close>

text \<open>
  A title of 250 letters, within MediaWiki's limit of 255 bytes.
\<close>

definition long_title :: string where
  "long_title = replicate 250 CHR ''a''"

text \<open>
  A link source that answers the first request for a batch, the one without a cursor,
  with a page of results and the cursor \<^verbatim>\<open>k1\<close>, answers the request that carries
  \<^verbatim>\<open>k1\<close> with the last page, and fails on any other cursor; a fetcher with one
  batch, and the same fetcher after its first fetch against this source.
\<close>

definition paged_source :: LinkSource where
  "paged_source d t c =
     (if c = None then Inr \<lparr>linkMap = [(''A'', [''B''])], cursor = Some ''k1''\<rparr>
      else if c = Some ''k1'' then Inr \<lparr>linkMap = [(''A'', [''C''])], cursor = None\<rparr>
      else Inl TransportError)"

definition paged_fetcher :: LinkFetcher where
  "paged_fetcher = addArticles [''A''] (LinkFetcher_new Forward)"

definition paged_fetcher2 :: LinkFetcher where
  "paged_fetcher2 =
     (case fetch paged_source paged_fetcher of Inr (lm, lf) \<Rightarrow> lf | Inl e \<Rightarrow> paged_fetcher)"

text \<open>
  A start page A that links to B, which links back to A, every result carrying a cursor:
  after two steps both batches are parked and nothing is queued for expansion.
\<close>

definition parked_source :: LinkSource where
  "parked_source d t c =
     (if t = ''A'' then Inr \<lparr>linkMap = [(''A'', [''B''])], cursor = Some ''k1''\<rparr>
      else Inr \<lparr>linkMap = [(''B'', [''A''])], cursor = Some ''k2''\<rparr>)"

definition parked_tree :: ArticleTree where
  "parked_tree =
     (case explore parked_source (ArticleTree_new ''A'' Forward) of
        Inr (new, t) \<Rightarrow>
          (case explore parked_source t of Inr (new', t') \<Rightarrow> t' | Inl e \<Rightarrow> t)
      | Inl e \<Rightarrow> ArticleTree_new ''A'' Forward)"

text \<open>
  A link source that never yields a new title and always returns a cursor, and the tree
  of A after one to four steps against it.
\<close>

definition stall_source :: LinkSource where
  "stall_source d t c = Inr \<lparr>linkMap = [(''A'', [])], cursor = Some ''k''\<rparr>"

definition stall_tree1 :: ArticleTree where
  "stall_tree1 = explore_tree stall_source (ArticleTree_new ''A'' Forward)"

definition stall_tree2 :: ArticleTree where
  "stall_tree2 = explore_tree stall_source stall_tree1"

definition stall_tree3 :: ArticleTree where
  "stall_tree3 = explore_tree stall_source stall_tree2"

definition stall_tree4 :: ArticleTree where
  "stall_tree4 = explore_tree stall_source stall_tree3"

text \<open>
  A link source on which one expansion step inserts two colliding titles. Forward, S
  links to A and B, and A links to P and Q; backward, E is linked from P, and P is linked
  from Q and R. \<open>detour_forward\<close> and \<open>detour_backward\<close> are the trees of the search
  from S to E before its fourth step: the forward tree after one step, the backward tree
  after two.
\<close>

definition detour_source :: LinkSource where
  "detour_source d t c =
     (if d = Forward \<and> t = ''S'' then Inr \<lparr>linkMap = [(''S'', [''A'', ''B''])], cursor = None\<rparr>
      else if d = Forward \<and> t = ''A|B'' then Inr \<lparr>linkMap = [(''A'', [''P'', ''Q''])], cursor = None\<rparr>
      else if d = Backward \<and> t = ''E'' then Inr \<lparr>linkMap = [(''E'', [''P''])], cursor = None\<rparr>
      else if d = Backward \<and> t = ''P'' then Inr \<lparr>linkMap = [(''P'', [''Q'', ''R''])], cursor = None\<rparr>
      else Inl TransportError)"

definition detour_forward :: ArticleTree where
  "detour_forward =
     (case explore detour_source (ArticleTree_new ''S'' Forward) of
        Inr (new, t) \<Rightarrow> t | Inl e \<Rightarrow> ArticleTree_new ''S'' Forward)"

definition detour_backward :: ArticleTree where
  "detour_backward =
     (case explore detour_source (ArticleTree_new ''E'' Backward) of
        Inr (new, t) \<Rightarrow>
          (case explore detour_source t of Inr (new', t') \<Rightarrow> t' | Inl e \<Rightarrow> t)
      | Inl e \<Rightarrow> ArticleTree_new ''E'' Backward)"

text \<open>
  Hydrogen links to Algae and Water; Penguin is linked from Marine biology, which is
  linked from Algae. \<open>hydrogen_forward\<close> is the forward tree after one step,
  \<open>penguin_backward\<close> the backward tree after two.
\<close>

definition hydrogen_source :: LinkSource where
  "hydrogen_source d t c =
     (if d = Forward \<and> t = ''Hydrogen''
      then Inr \<lparr>linkMap = [(''Hydrogen'', [''Algae'', ''Water''])], cursor = None\<rparr>
      else if d = Backward \<and> t = ''Penguin''
      then Inr \<lparr>linkMap = [(''Penguin'', [''Marine biology''])], cursor = None\<rparr>
      else if d = Backward \<and> t = ''Marine biology''
      then Inr \<lparr>linkMap = [(''Marine biology'', [''Algae''])], cursor = None\<rparr>
      else Inl TransportError)"

definition hydrogen_forward :: ArticleTree where
  "hydrogen_forward = explore_tree hydrogen_source (ArticleTree_new ''Hydrogen'' Forward)"

definition penguin_backward1 :: ArticleTree where
  "penguin_backward1 = explore_tree hydrogen_source (ArticleTree_new ''Penguin'' Backward)"

definition penguin_backward :: ArticleTree where
  "penguin_backward = explore_tree hydrogen_source penguin_backward1"

text \<open>
  A link source that names \<^verbatim>\<open>constructor\<close> among the links of every page.
\<close>

definition shadow_source :: LinkSource where
  "shadow_source d t c = Inr \<lparr>linkMap = [(''A'', [''constructor'', ''B''])], cursor = None\<rparr>"

definition algae_source :: LinkSource where
  "algae_source d t c = Inr \<lparr>linkMap = [(''Algae'', [''Water'', ''Kelp''])], cursor = None\<rparr>"

section \<open>Evaluation on concrete states\<close>

declare addArticles_for.simps [simp del]
declare addArticles_while.simps [simp del]

text \<open>
  The titles of the examples are no property names of \<^verbatim>\<open>Object.prototype\<close> and no
  array indices, and \<^verbatim>\<open>Object.keys\<close> lists a link map without array indices in the
  order of creation.
\<close>

lemmas object_eval =
  inherited_def objectPrototypeNames_def objectEntries_def arrayIndex_def isDigit_def

lemma title_eval:
  "\<not> inherited ''A''"
  "\<not> inherited ''B''"
  "\<not> inherited ''C''"
  "\<not> inherited ''E''"
  "\<not> inherited ''P''"
  "\<not> inherited ''Q''"
  "\<not> inherited ''R''"
  "\<not> inherited ''S''"
  "\<not> inherited ''Hydrogen''"
  "\<not> inherited ''Algae''"
  "\<not> inherited ''Water''"
  "\<not> inherited ''Kelp''"
  "\<not> inherited ''Penguin''"
  "\<not> inherited ''Marine biology''"
  "arrayIndex ''A'' = None"
  "arrayIndex ''B'' = None"
  "arrayIndex ''C'' = None"
  "arrayIndex ''E'' = None"
  "arrayIndex ''P'' = None"
  "arrayIndex ''Q'' = None"
  "arrayIndex ''R'' = None"
  "arrayIndex ''S'' = None"
  "arrayIndex ''Hydrogen'' = None"
  "arrayIndex ''Algae'' = None"
  "arrayIndex ''Water'' = None"
  "arrayIndex ''Kelp'' = None"
  "arrayIndex ''Penguin'' = None"
  "arrayIndex ''Marine biology'' = None"
  by (simp_all add: object_eval)

lemma objectEntries_plain:
  "list_all (\<lambda>entry. arrayIndex (fst entry) = None) lm \<Longrightarrow> objectEntries lm = lm"
  by (simp add: objectEntries_def list_all_iff)

lemmas fetcher_eval =
  addArticles_for.simps addArticles_while.simps
  addArticles_def addArticles_batch_def LinkFetcher_new_def fetch_def fetch_start_def
  fetch_select_def fetch_then_def complete_def noDesirableBatches_def truthy_def
  markLastBatchUndesirable_def markAllBatchesUndesirable_def
  encodeURIComponent_def encodeChar_def uriUnreserved_def hexDigit_def
  title_eval

lemmas tree_eval =
  ArticleTree_new_def containsPage_def diversify_def insertChild_def exploreParent_def
  yieldPolicy_def explore_then_def explore_def pathToRoot_def buildPath_def Let_def
  objectEntries_plain

text \<open>
Every length of an array is far below \<^verbatim>\<open>Number.MAX_VALUE\<close>.
\<close>

lemma small_lt_MAX: "n < 2 ^ 32 \<Longrightarrow> n < Number_MAX_VALUE"
proof -
  assume a: "n < 2 ^ 32"
  have "(2::nat) ^ 1024 = 2 ^ 971 * 2 ^ 53" by (simp add: power_add [symmetric])
  then have "Number_MAX_VALUE = 2 ^ 971 * (2 ^ 53 - 1)"
    by (simp add: Number_MAX_VALUE_def right_diff_distrib')
  moreover have "(2::nat) ^ 32 \<le> 2 ^ 971 * (2 ^ 53 - 1)"
  proof -
    have "(2::nat) ^ 32 \<le> 2 ^ 971" by (rule power_increasing) simp_all
    also have "\<dots> \<le> 2 ^ 971 * (2 ^ 53 - 1)" by simp
    finally show ?thesis .
  qed
  ultimately show ?thesis using a by linarith
qed

lemmas paged_eval = paged_fetcher_def paged_source_def paged_fetcher2_def fetcher_eval

lemmas stall_eval = stall_tree4_def stall_tree3_def stall_tree2_def stall_tree1_def
  explore_tree_def stall_source_def tree_eval fetcher_eval

lemmas detour_eval = detour_source_def detour_forward_def detour_backward_def
  tree_eval fetcher_eval pathToRoot_while.simps small_lt_MAX

lemmas hydrogen_eval = hydrogen_source_def hydrogen_forward_def penguin_backward_def
  penguin_backward1_def explore_tree_def tree_eval fetcher_eval

section \<open>Inherited names and array indices\<close>

text \<open>
  \<^verbatim>\<open>Object.keys\<close> lists 9 before 10 and both before B, whatever the order of
  creation; a numeral with leading zeros is an ordinary key.
\<close>

lemma index_eval:
  "arrayIndex ''9'' = Some 9" "arrayIndex ''10'' = Some 10" "arrayIndex ''007'' = None"
  by (simp_all add: arrayIndex_def isDigit_def digitsValue_def)

lemma objectEntries_indices_first:
  "objectEntries [(''B'', [''x'']), (''10'', [''y'']), (''9'', [''z''])] =
     [(''9'', [''z'']), (''10'', [''y'']), (''B'', [''x''])]"
  by (simp add: objectEntries_def index_eval title_eval)

text \<open>
  A title named like a property of \<^verbatim>\<open>Object.prototype\<close> gets no empty link list,
  and a tree never takes it as a child.
\<close>

lemma synthesize_skips_inherited:
  "synthesize [''toString'', ''B''] [] = [(''B'', [])]"
  by (simp add: title_eval) (simp add: inherited_def objectPrototypeNames_def)

lemma inherited_child_not_inserted:
  "(case explore shadow_source (ArticleTree_new ''A'' Forward) of
      Inr (new, t) \<Rightarrow> new = [''B''] \<and> dom (treeObj t) = {''A'', ''B''}
    | Inl e \<Rightarrow> False)"
proof -
  have c: "inherited ''constructor''" by (simp add: inherited_def objectPrototypeNames_def)
  show ?thesis by (simp add: shadow_source_def tree_eval fetcher_eval c) auto
qed

section \<open>Packing titles into batches\<close>

lemma encodedLength_simps:
  "encodedLength (a @ b) = encodedLength a + encodedLength b"
  "encodedLength (c # b) = length (encodeChar c) + encodedLength b"
  "encodedLength [] = 0"
  by (simp_all add: encodeURIComponent_def)

lemma bars_simps [simp]:
  "bars [] = []" "bars (x # xs) = ''|'' @ x @ bars xs" "bars (xs @ ys) = bars xs @ bars ys"
  by (simp_all add: bars_def)

lemma take_drop_step:
  assumes "i < length as" "i < j"
  shows "take (j - i) (drop i as) = as ! i # take (j - Suc i) (drop (Suc i) as)"
proof -
  from assms(1) have "drop i as = as ! i # drop (Suc i) as" by (simp add: Cons_nth_drop_Suc)
  moreover from assms(2) have "j - i = Suc (j - Suc i)" by simp
  ultimately show ?thesis by simp
qed

text \<open>
  The inner loop started at index \<open>i\<close> stops at an index \<open>j\<close>, having appended the
  titles from \<open>i\<close> up to \<open>j\<close>. It stops below \<open>titleCount\<close> only when the encoded
  length has reached 1500, and the length was below 1500 before the last title was
  appended.
\<close>

lemma addArticles_for_spec:
  assumes "i \<le> n" "n \<le> length as"
  shows "\<exists>j. addArticles_for as n i b e =
           (j, b\<lparr>articles := articles b @ take (j - i) (drop i as),
                 titlesParam := titlesParam b @ bars (take (j - i) (drop i as))\<rparr>)
         \<and> i \<le> j \<and> j \<le> n
         \<and> (j < n \<longrightarrow> 1500 \<le> e + encodedLength (bars (take (j - i) (drop i as))))
         \<and> (i < j \<longrightarrow> e + encodedLength (bars (take (j - Suc i) (drop i as))) < 1500)"
  using assms
proof (induction as n i b e rule: addArticles_for.induct)
  case (1 as n i b e)
  show ?case
  proof (cases "i < n \<and> e < 1500")
    case False
    then have "addArticles_for as n i b e = (i, b)" by (simp add: addArticles_for.simps)
    with False "1.prems" show ?thesis by (intro exI [of _ i]) auto
  next
    case True
    let ?b1 = "b\<lparr>articles := articles b @ [as ! i], titlesParam := titlesParam b @ ''|'' @ as ! i\<rparr>"
    let ?e1 = "e + encodedLength (''|'' @ as ! i)"
    from True "1.prems" have il: "i < length as" by simp
    from True "1.prems" have "i + 1 \<le> n" "n \<le> length as" by simp_all
    from "1.IH" [OF True this] obtain j where
      r: "addArticles_for as n (i + 1) ?b1 ?e1 =
           (j, ?b1\<lparr>articles := articles ?b1 @ take (j - (i + 1)) (drop (i + 1) as),
                 titlesParam := titlesParam ?b1 @ bars (take (j - (i + 1)) (drop (i + 1) as))\<rparr>)"
      and j: "i + 1 \<le> j" "j \<le> n"
      and stop: "j < n \<longrightarrow> 1500 \<le> ?e1 + encodedLength (bars (take (j - (i + 1)) (drop (i + 1) as)))"
      and before: "i + 1 < j \<longrightarrow>
          ?e1 + encodedLength (bars (take (j - Suc (i + 1)) (drop (i + 1) as))) < 1500"
      by blast
    from j have ij: "i < j" by simp
    have td: "take (j - i) (drop i as) = as ! i # take (j - Suc i) (drop (Suc i) as)"
      by (rule take_drop_step [OF il ij])
    have step: "addArticles_for as n i b e = addArticles_for as n (i + 1) ?b1 ?e1"
      using True by (subst addArticles_for.simps) simp
    have 1: "addArticles_for as n i b e =
           (j, b\<lparr>articles := articles b @ take (j - i) (drop i as),
                 titlesParam := titlesParam b @ bars (take (j - i) (drop i as))\<rparr>)"
      using r by (simp add: step td)
    have 2: "j < n \<longrightarrow> 1500 \<le> e + encodedLength (bars (take (j - i) (drop i as)))"
      using stop by (simp add: td encodedLength_simps add.assoc)
    have 3: "e + encodedLength (bars (take (j - Suc i) (drop i as))) < 1500"
    proof (cases "j = i + 1")
      case True
      with \<open>i < n \<and> e < 1500\<close> show ?thesis by (simp add: encodedLength_simps)
    next
      case False
      with j have lt: "i + 1 < j" by simp
      have "take (j - 1 - i) (drop i as) = as ! i # take (j - 1 - Suc i) (drop (Suc i) as)"
        by (rule take_drop_step) (use il lt in simp_all)
      then have "take (j - Suc i) (drop i as) = as ! i # take (j - Suc (Suc i)) (drop (Suc i) as)"
        by simp
      with before lt show ?thesis by (simp add: encodedLength_simps add.assoc)
    qed
    from 1 2 3 j ij show ?thesis by (intro exI [of _ j]) simp
  qed
qed

lemma addArticles_batch_spec:
  assumes "as \<noteq> []"
  shows "\<exists>j. addArticles_batch as = (j, batchOf (take j as))
         \<and> 1 \<le> j \<and> j \<le> min 50 (length as)
         \<and> (j < min 50 (length as) \<longrightarrow> 1500 \<le> encodedLength (joinTitles (take j as)))
         \<and> encodedLength (joinTitles (take (j - 1) as)) < 1500"
proof -
  from assms obtain x xs where as: "as = x # xs" by (cases as) auto
  let ?b = "\<lparr>articles = [], titlesParam = hd as, continueParam = None\<rparr>"
  let ?e = "encodedLength (hd as)"
  let ?n = "min 50 (length as)"
  have "1 \<le> ?n" "?n \<le> length as" using assms by (simp_all add: Suc_leI)
  from addArticles_for_spec [OF this, of ?b ?e] obtain j where
    r: "addArticles_for as ?n 1 ?b ?e =
         (j, ?b\<lparr>articles := articles ?b @ take (j - 1) (drop 1 as),
               titlesParam := titlesParam ?b @ bars (take (j - 1) (drop 1 as))\<rparr>)"
    and j: "1 \<le> j" "j \<le> ?n"
    and stop: "j < ?n \<longrightarrow> 1500 \<le> ?e + encodedLength (bars (take (j - 1) (drop 1 as)))"
    and before: "1 < j \<longrightarrow> ?e + encodedLength (bars (take (j - Suc 1) (drop 1 as))) < 1500"
    by blast
  from j obtain k where k: "j = Suc k" by (cases j) auto
  have 1: "addArticles_batch as = (j, batchOf (take j as))"
    using r by (simp add: addArticles_batch_def batchOf_def joinTitles_def as k)
  have 2: "j < ?n \<longrightarrow> 1500 \<le> encodedLength (joinTitles (take j as))"
    using stop by (simp add: joinTitles_def as k encodedLength_simps)
  have 3: "encodedLength (joinTitles (take (j - 1) as)) < 1500"
  proof (cases k)
    case 0
    then show ?thesis by (simp add: k joinTitles_def encodedLength_simps)
  next
    case (Suc m)
    with before show ?thesis by (simp add: k joinTitles_def as encodedLength_simps)
  qed
  from 1 2 3 j show ?thesis by blast
qed

text \<open>
  The outer loop cuts the titles into consecutive chunks and appends one batch for each.
\<close>

lemma addArticles_while_spec:
  "\<exists>cs. concat cs = as
     \<and> (\<forall>c\<in>set cs. c \<noteq> [] \<and> length c \<le> 50 \<and> encodedLength (joinTitles (butlast c)) < 1500)
     \<and> (\<forall>c\<in>set (butlast cs). length c = 50 \<or> 1500 \<le> encodedLength (joinTitles c))
     \<and> addArticles_while as bs = bs @ map batchOf cs"
proof (induction as bs rule: addArticles_while.induct)
  case (1 as bs)
  show ?case
  proof (cases "as = []")
    case True
    then show ?thesis by (intro exI [of _ "[]"]) (simp add: addArticles_while.simps)
  next
    case False
    from addArticles_batch_spec [OF False] obtain j where
      b: "addArticles_batch as = (j, batchOf (take j as))"
      and j: "1 \<le> j" "j \<le> min 50 (length as)"
      and stop: "j < min 50 (length as) \<longrightarrow> 1500 \<le> encodedLength (joinTitles (take j as))"
      and before: "encodedLength (joinTitles (take (j - 1) as)) < 1500"
      by blast
    from "1.IH" [OF False] b obtain cs where
      c: "concat cs = drop j as"
      and each: "\<forall>c\<in>set cs. c \<noteq> [] \<and> length c \<le> 50 \<and> encodedLength (joinTitles (butlast c)) < 1500"
      and greedy: "\<forall>c\<in>set (butlast cs). length c = 50 \<or> 1500 \<le> encodedLength (joinTitles c)"
      and w: "addArticles_while (drop j as) (bs @ [batchOf (take j as)]) =
          (bs @ [batchOf (take j as)]) @ map batchOf cs"
      by auto
    let ?cs = "take j as # cs"
    have 1: "concat ?cs = as" using c by simp
    have lt: "length (take j as) = j" using j by simp
    have bl: "butlast (take j as) = take (j - 1) as"
      using j by (simp add: butlast_take)
    have 2: "\<forall>c\<in>set ?cs. c \<noteq> [] \<and> length c \<le> 50 \<and> encodedLength (joinTitles (butlast c)) < 1500"
      using each j before False by (auto simp: bl)
    have 3: "\<forall>c\<in>set (butlast ?cs). length c = 50 \<or> 1500 \<le> encodedLength (joinTitles c)"
    proof (cases "cs = []")
      case True
      then show ?thesis by simp
    next
      case cs: False
      have "drop j as \<noteq> []"
      proof
        assume "drop j as = []"
        with c have "\<forall>c\<in>set cs. c = []" by simp
        with each cs show False by (cases cs) auto
      qed
      then have "j < length as" by simp
      with j stop have "j = 50 \<or> 1500 \<le> encodedLength (joinTitles (take j as))" by linarith
      with greedy cs lt show ?thesis by auto
    qed
    have 4: "addArticles_while as bs = bs @ map batchOf ?cs"
      using False w b by (subst addArticles_while.simps) simp
    from 1 2 3 4 show ?thesis by blast
  qed
qed

lemma splitTitles_nonempty: "splitTitles s \<noteq> []"
  by (induction s) (auto split: list.splits)

lemma splitTitles_prefix:
  "CHR ''|'' \<notin> set x \<Longrightarrow>
     splitTitles (x @ s) = (x @ hd (splitTitles s)) # tl (splitTitles s)"
proof (induction x)
  case Nil
  then show ?case using splitTitles_nonempty [of s] by (cases "splitTitles s") auto
next
  case (Cons c x)
  then have "c \<noteq> CHR ''|''" "CHR ''|'' \<notin> set x" by auto
  with Cons.IH show ?case by simp
qed

lemma splitTitles_bars:
  "CHR ''|'' \<notin> set x \<Longrightarrow> \<forall>y\<in>set ys. CHR ''|'' \<notin> set y \<Longrightarrow>
     splitTitles (x @ bars ys) = x # ys"
proof (induction ys arbitrary: x)
  case Nil
  then show ?case using splitTitles_prefix [of x "[]"] by simp
next
  case (Cons y ys)
  from Cons.prems have "splitTitles (y @ bars ys) = y # ys" by (intro Cons.IH) auto
  with Cons.prems(1) show ?case
    using splitTitles_prefix [of x "CHR ''|'' # y @ bars ys"] by simp
qed

lemma splitTitles_joinTitles:
  "c \<noteq> [] \<Longrightarrow> \<forall>y\<in>set c. CHR ''|'' \<notin> set y \<Longrightarrow> splitTitles (joinTitles c) = c"
  by (cases c) (simp_all add: joinTitles_def splitTitles_bars)

lemma splitTitles_batchOf:
  "c \<noteq> [] \<Longrightarrow> \<forall>y\<in>set c. CHR ''|'' \<notin> set y \<Longrightarrow> splitTitles (titlesParam (batchOf c)) = c"
  by (simp add: batchOf_def splitTitles_joinTitles)

text \<open>
Short titles: fifty of them stay below the limit.
\<close>

lemma encodedLength_bars_short:
  "\<forall>x\<in>set xs. encodedLength x \<le> 27 \<Longrightarrow> encodedLength (bars xs) \<le> 30 * length xs"
proof (induction xs)
  case Nil
  then show ?case by (simp add: encodedLength_simps)
next
  case (Cons x xs)
  have "length (encodeChar CHR ''|'') = 3" by (simp add: encodeChar_def uriUnreserved_def)
  with Cons show ?case by (simp add: encodedLength_simps)
qed

lemma addArticles_batch_short:
  assumes "as \<noteq> []" "\<forall>x\<in>set as. encodedLength x \<le> 27"
  shows "addArticles_batch as =
           (min 50 (length as), batchOf (take (min 50 (length as)) as))"
proof -
  from addArticles_batch_spec [OF assms(1)] obtain j where
    b: "addArticles_batch as = (j, batchOf (take j as))"
    and j: "1 \<le> j" "j \<le> min 50 (length as)"
    and stop: "j < min 50 (length as) \<longrightarrow> 1500 \<le> encodedLength (joinTitles (take j as))"
    by blast
  have "j = min 50 (length as)"
  proof (rule ccontr)
    assume "j \<noteq> min 50 (length as)"
    with j have lt: "j < min 50 (length as)" by linarith
    from assms(1) obtain x xs where as: "as = x # xs" by (cases as) auto
    from j obtain k where k: "j = Suc k" by (cases j) auto
    have "\<forall>y\<in>set (take k xs). encodedLength y \<le> 27"
      using assms(2) as by (auto dest: in_set_takeD)
    from encodedLength_bars_short [OF this]
    have "encodedLength (bars (take k xs)) \<le> 30 * k" using lt k as by simp
    moreover have "encodedLength x \<le> 27" using assms(2) as by simp
    ultimately have "encodedLength (joinTitles (take j as)) \<le> 27 + 30 * k"
      by (simp add: joinTitles_def as k encodedLength_simps)
    moreover from lt k have "k < 49" by simp
    ultimately have "encodedLength (joinTitles (take j as)) < 1500" by simp
    with stop lt show False by simp
  qed
  with b show ?thesis by simp
qed

lemma addArticles_while_120:
  assumes "length as = 120" "\<forall>x\<in>set as. encodedLength x \<le> 27"
  shows "addArticles_while as bs =
           bs @ [batchOf (take 50 as), batchOf (take 50 (drop 50 as)), batchOf (drop 100 as)]"
proof -
  have s: "\<forall>x\<in>set (drop k as). encodedLength x \<le> 27" for k
    using assms(2) by (auto dest: in_set_dropD)
  have n: "as \<noteq> []" "drop 50 as \<noteq> []" "drop 100 as \<noteq> []" using assms(1) by auto
  have 1: "addArticles_batch as = (50, batchOf (take 50 as))"
    using addArticles_batch_short [OF n(1) assms(2)] assms(1) by simp
  have 2: "addArticles_batch (drop 50 as) = (50, batchOf (take 50 (drop 50 as)))"
    using addArticles_batch_short [OF n(2) s] assms(1) by simp
  have 3: "addArticles_batch (drop 100 as) = (20, batchOf (drop 100 as))"
    using addArticles_batch_short [OF n(3) s] assms(1) by simp
  show ?thesis
    apply (subst addArticles_while.simps)
    apply (simp add: n 1)
    apply (subst addArticles_while.simps)
    apply (simp add: n 2)
    apply (subst addArticles_while.simps)
    apply (simp add: n 3 assms(1))
    apply (subst addArticles_while.simps)
    apply (simp add: assms(1))
    done
qed

text \<open>
  Claim C2, as the code has it. \<^verbatim>\<open>addArticles\<close> appends new batches to the rotation
  and changes nothing else. For titles without a bar, the titles that the new batches
  request are the input titles, each exactly once and in order; every new batch has no
  cursor and at most 50 titles, and its encoded length was below 1500 before its last
  title was appended; every new batch but the last has 50 titles or an encoded length of
  at least 1500. 120 titles of encoded length at most 27 give three batches of 50, 50 and
  20 titles.
\<close>

theorem addArticles_partition:
  assumes "\<forall>x\<in>set as. CHR ''|'' \<notin> set x"
  shows "\<exists>new. addArticles as lf = lf\<lparr>batches := batches lf @ new\<rparr>
     \<and> concat (map (\<lambda>b. splitTitles (titlesParam b)) new) = as
     \<and> (\<forall>b\<in>set new. continueParam b = None
           \<and> length (splitTitles (titlesParam b)) \<le> 50
           \<and> encodedLength (joinTitles (butlast (splitTitles (titlesParam b)))) < 1500)
     \<and> (\<forall>b\<in>set (butlast new).
           length (splitTitles (titlesParam b)) = 50 \<or> 1500 \<le> encodedLength (titlesParam b))
     \<and> (as \<noteq> [] \<longrightarrow> new \<noteq> [])
     \<and> (length as = 120 \<and> (\<forall>x\<in>set as. encodedLength x \<le> 27) \<longrightarrow>
           map (\<lambda>b. length (splitTitles (titlesParam b))) new = [50, 50, 20])"
proof -
  from addArticles_while_spec [of as "batches lf"] obtain cs where
    c: "concat cs = as"
    and each: "\<forall>c\<in>set cs. c \<noteq> [] \<and> length c \<le> 50 \<and> encodedLength (joinTitles (butlast c)) < 1500"
    and greedy: "\<forall>c\<in>set (butlast cs). length c = 50 \<or> 1500 \<le> encodedLength (joinTitles c)"
    and w: "addArticles_while as (batches lf) = batches lf @ map batchOf cs"
    by blast
  let ?new = "map batchOf cs"
  have split: "splitTitles (titlesParam (batchOf c)) = c" if "c \<in> set cs" for c
  proof (rule splitTitles_batchOf)
    from that each show "c \<noteq> []" by blast
    from that c have "set c \<subseteq> set as" by auto
    with assms show "\<forall>y\<in>set c. CHR ''|'' \<notin> set y" by blast
  qed
  have 1: "addArticles as lf = lf\<lparr>batches := batches lf @ ?new\<rparr>"
    by (simp add: addArticles_def w)
  have "map (\<lambda>b. splitTitles (titlesParam b)) ?new = cs"
    by (simp add: o_def split map_idI)
  then have 2: "concat (map (\<lambda>b. splitTitles (titlesParam b)) ?new) = as"
    using c by simp
  have 3: "\<forall>b\<in>set ?new. continueParam b = None
           \<and> length (splitTitles (titlesParam b)) \<le> 50
           \<and> encodedLength (joinTitles (butlast (splitTitles (titlesParam b)))) < 1500"
  proof
    fix b assume "b \<in> set ?new"
    then obtain c where cs: "c \<in> set cs" and b: "b = batchOf c" by auto
    from cs have sp: "splitTitles (titlesParam b) = c" unfolding b by (rule split)
    from each cs have "length c \<le> 50" "encodedLength (joinTitles (butlast c)) < 1500" by blast+
    moreover have "continueParam b = None" by (simp add: b batchOf_def)
    ultimately show "continueParam b = None
           \<and> length (splitTitles (titlesParam b)) \<le> 50
           \<and> encodedLength (joinTitles (butlast (splitTitles (titlesParam b)))) < 1500"
      using sp by simp
  qed
  have 4: "\<forall>b\<in>set (butlast ?new).
           length (splitTitles (titlesParam b)) = 50 \<or> 1500 \<le> encodedLength (titlesParam b)"
  proof
    fix b assume "b \<in> set (butlast ?new)"
    then obtain c where cb: "c \<in> set (butlast cs)" and b: "b = batchOf c"
      by (auto simp: map_butlast [symmetric])
    from cb have "c \<in> set cs" by (rule in_set_butlastD)
    then have sp: "splitTitles (titlesParam b) = c" unfolding b by (rule split)
    from greedy cb have "length c = 50 \<or> 1500 \<le> encodedLength (joinTitles c)" by blast
    moreover have "titlesParam b = joinTitles c" by (simp add: b batchOf_def)
    ultimately show "length (splitTitles (titlesParam b)) = 50 \<or> 1500 \<le> encodedLength (titlesParam b)"
      using sp by simp
  qed
  have 5: "as \<noteq> [] \<longrightarrow> ?new \<noteq> []" using c by auto
  have 6: "map (\<lambda>b. length (splitTitles (titlesParam b))) ?new = [50, 50, 20]"
    if l: "length as = 120" and s: "\<forall>x\<in>set as. encodedLength x \<le> 27"
  proof -
    from addArticles_while_120 [OF l s, of "batches lf"] w
    have eq: "?new = [batchOf (take 50 as), batchOf (take 50 (drop 50 as)), batchOf (drop 100 as)]"
      by simp
    have bar: "\<forall>y\<in>set (take k (drop m as)). CHR ''|'' \<notin> set y" for k m
      using assms by (auto dest!: in_set_takeD in_set_dropD)
    have bar': "\<forall>y\<in>set (drop m as). CHR ''|'' \<notin> set y" for m
      using assms by (auto dest!: in_set_dropD)
    have a: "splitTitles (titlesParam (batchOf (take 50 as))) = take 50 as"
      using bar [of 50 0] l by (intro splitTitles_batchOf) auto
    have b: "splitTitles (titlesParam (batchOf (take 50 (drop 50 as)))) = take 50 (drop 50 as)"
      using bar [of 50 50] l by (intro splitTitles_batchOf) auto
    have c: "splitTitles (titlesParam (batchOf (drop 100 as))) = drop 100 as"
      using bar' [of 100] l by (intro splitTitles_batchOf) auto
    show ?thesis unfolding eq by (simp add: a b c l)
  qed
  show ?thesis
  proof (intro exI [of _ ?new] conjI impI)
    assume "length as = 120 \<and> (\<forall>x\<in>set as. encodedLength x \<le> 27)"
    then show "map (\<lambda>b. length (splitTitles (titlesParam b))) ?new = [50, 50, 20]"
      using 6 by blast
  qed (use 1 2 3 4 5 in simp_all)
qed

text \<open>
  At 120 titles of five letters the batches have 50, 50 and 20 titles.
\<close>

theorem addArticles_partition_witness:
  "\<exists>new. addArticles (replicate 120 ''Algae'') (LinkFetcher_new Forward) =
       (LinkFetcher_new Forward)\<lparr>batches := batches (LinkFetcher_new Forward) @ new\<rparr>
     \<and> concat (map (\<lambda>b. splitTitles (titlesParam b)) new) = replicate 120 ''Algae''
     \<and> map (\<lambda>b. length (splitTitles (titlesParam b))) new = [50, 50, 20]
     \<and> new \<noteq> []"
proof -
  have 1: "\<forall>x\<in>set (replicate 120 ''Algae''). CHR ''|'' \<notin> set x" by simp
  have 2: "\<forall>x\<in>set (replicate 120 ''Algae''). encodedLength x \<le> 27"
    by (simp add: encodedLength_simps encodeChar_def uriUnreserved_def)
  have 3: "length (replicate 120 ''Algae'') = 120" by simp
  have 4: "replicate 120 ''Algae'' \<noteq> []" by simp
  from addArticles_partition [OF 1, of "LinkFetcher_new Forward"] obtain new where
    a: "addArticles (replicate 120 ''Algae'') (LinkFetcher_new Forward) =
       (LinkFetcher_new Forward)\<lparr>batches := batches (LinkFetcher_new Forward) @ new\<rparr>"
    and b: "concat (map (\<lambda>b. splitTitles (titlesParam b)) new) = replicate 120 ''Algae''"
    and e: "replicate 120 ''Algae'' \<noteq> [] \<longrightarrow> new \<noteq> []"
    and f: "length (replicate 120 ''Algae'') = 120 \<and>
            (\<forall>x\<in>set (replicate 120 ''Algae''). encodedLength x \<le> 27) \<longrightarrow>
            map (\<lambda>b. length (splitTitles (titlesParam b))) new = [50, 50, 20]"
    by (elim exE conjE)
  from e 4 have "new \<noteq> []" by blast
  moreover from f 2 3 have "map (\<lambda>b. length (splitTitles (titlesParam b))) new = [50, 50, 20]"
    by blast
  ultimately show ?thesis using a b by (intro exI [of _ new]) simp
qed

lemma encodedLength_replicate_a: "encodedLength (replicate n CHR ''a'') = n"
  by (induction n) (simp_all add: encodedLength_simps encodeChar_def uriUnreserved_def)

lemma encodedLength_long_title: "encodedLength long_title = 250"
  by (simp add: long_title_def encodedLength_replicate_a)

text \<open>
  The encoded length of a batch can exceed 1500: the limit is tested before a title is
  appended, not after. Six titles of 250 letters make one batch of encoded length 1515.
\<close>

theorem batch_exceeds_1500:
  "batches (addArticles [long_title, long_title, long_title, long_title, long_title, long_title]
      (LinkFetcher_new Forward)) =
     [\<lparr>articles = [long_title, long_title, long_title, long_title, long_title],
       titlesParam = joinTitles [long_title, long_title, long_title, long_title, long_title, long_title],
       continueParam = None\<rparr>]
   \<and> length long_title = 250
   \<and> length (encodeURIComponent
        (joinTitles [long_title, long_title, long_title, long_title, long_title, long_title])) = 1515"
proof -
  have bar: "length (encodeChar CHR ''|'') = 3" by (simp add: encodeChar_def uriUnreserved_def)
  show ?thesis
    by (simp add: addArticles_def addArticles_batch_def LinkFetcher_new_def
        addArticles_while.simps addArticles_for.simps
        encodedLength_simps encodedLength_long_title bar joinTitles_def)
      (simp add: long_title_def)
qed

section \<open>The link map of an exhausted batch\<close>

lemma synthesize_entries:
  "e \<in> set (synthesize as lm) \<Longrightarrow> e \<in> set lm \<or> snd e = []"
proof (induction as arbitrary: lm)
  case Nil
  then show ?case by simp
next
  case (Cons a as)
  show ?case
  proof (cases "a \<in> fst ` set lm \<or> inherited a")
    case True
    with Cons.prems have "e \<in> set (synthesize as lm)" by simp
    from Cons.IH [OF this] show ?thesis .
  next
    case False
    with Cons.prems have "e \<in> set (synthesize as (lm @ [(a, [])]))" by simp
    from Cons.IH [OF this] show ?thesis by auto
  qed
qed

lemma synthesize_keys:
  "fst ` set (synthesize as lm) = fst ` set lm \<union> {a \<in> set as. \<not> inherited a}"
proof (induction as arbitrary: lm)
  case Nil
  then show ?case by simp
next
  case (Cons a as)
  show ?case
  proof (cases "a \<in> fst ` set lm \<or> inherited a")
    case True
    then have "synthesize (a # as) lm = synthesize as lm" by simp
    with Cons.IH [of lm] True show ?thesis by auto
  next
    case False
    then have "synthesize (a # as) lm = synthesize as (lm @ [(a, [])])" by simp
    with Cons.IH [of "lm @ [(a, [])]"] False show ?thesis by auto
  qed
qed

lemma synthesize_keeps: "set lm \<subseteq> set (synthesize as lm)"
proof (induction as arbitrary: lm)
  case Nil
  then show ?case by simp
next
  case (Cons a as)
  show ?case
  proof (cases "a \<in> fst ` set lm \<or> inherited a")
    case True
    then have "synthesize (a # as) lm = synthesize as lm" by simp
    with Cons.IH [of lm] show ?thesis by simp
  next
    case False
    then have "synthesize (a # as) lm = synthesize as (lm @ [(a, [])])" by simp
    with Cons.IH [of "lm @ [(a, [])]"] show ?thesis by auto
  qed
qed

text \<open>
  On a result with no cursor the titles of \<^verbatim>\<open>batch.articles\<close> do get their entries,
  unless they are named like a property of \<^verbatim>\<open>Object.prototype\<close>; no entry of the result is lost, the batch leaves the rotation and the demotion candidate
  is cleared.
\<close>

lemma fetch_then_exhausted:
  assumes "\<not> truthy (cursor r)" "fetch_then lf b r = (lm, lf')"
  shows "\<forall>a\<in>set (articles b). a \<in> fst ` set lm \<or> inherited a"
    and "set (linkMap r) \<subseteq> set lm"
    and "\<forall>e\<in>set lm. e \<in> set (linkMap r) \<or> snd e = []"
    and "batches lf' = take (batchIndex lf) (batches lf) @ drop (Suc (batchIndex lf)) (batches lf)"
    and "lastBatchIndex lf' = None"
proof -
  from assms have lm: "lm = synthesize (articles b) (linkMap r)"
    and lf': "lf' = lf\<lparr>batches := take (batchIndex lf) (batches lf) @ drop (Suc (batchIndex lf)) (batches lf),
               lastBatchIndex := None\<rparr>"
    by (simp_all add: fetch_then_def)
  show "\<forall>a\<in>set (articles b). a \<in> fst ` set lm \<or> inherited a"
    by (auto simp: lm synthesize_keys)
  show "set (linkMap r) \<subseteq> set lm" unfolding lm by (rule synthesize_keeps)
  show "\<forall>e\<in>set lm. e \<in> set (linkMap r) \<or> snd e = []"
    unfolding lm using synthesize_entries by blast
  show "batches lf' = take (batchIndex lf) (batches lf) @ drop (Suc (batchIndex lf)) (batches lf)"
    by (simp add: lf')
  show "lastBatchIndex lf' = None" by (simp add: lf')
qed

text \<open>
  Claim C4. When \<^verbatim>\<open>fetch\<close> receives a result with no cursor, every title of the
  fetched batch that is absent from the returned link map should get an empty link
  list, the batch should leave the rotation and the demotion candidate should be
  cleared. The code does the last two, but \<^verbatim>\<open>addArticles\<close> never puts the first
  title of a batch in \<^verbatim>\<open>batch.articles\<close>, the list the empty entries are made
  from: for the titles A and B the batch requests \<^verbatim>\<open>A|B\<close>, and on an empty
  result with no cursor the map returned has an entry for B and none for A.
\<close>

theorem fetch_exhausted_misses_first_title:
  "map titlesParam (batches (addArticles [''A'', ''B''] (LinkFetcher_new Forward))) = [''A|B'']
   \<and> map articles (batches (addArticles [''A'', ''B''] (LinkFetcher_new Forward))) = [[''B'']]
   \<and> fetch (\<lambda>d t c. Inr \<lparr>linkMap = [], cursor = None\<rparr>)
        (addArticles [''A'', ''B''] (LinkFetcher_new Forward))
      = Inr ([(''B'', [])],
             \<lparr>direction = Forward, batchIndex = 0, lastBatchIndex = None, batches = [],
              undesirableBatchStack = []\<rparr>)"
  by (simp add: fetcher_eval)

section \<open>Batches in the rotation and on the stack\<close>

lemma set_splice:
  "set xs = set (take i xs @ drop (Suc i) xs) \<union> (if i < length xs then {xs ! i} else {})"
proof (cases "i < length xs")
  case True
  then have "xs = take i xs @ xs ! i # drop (Suc i) xs" by (rule id_take_nth_drop)
  then have "set xs = set (take i xs @ xs ! i # drop (Suc i) xs)" by simp
  with True show ?thesis by auto
next
  case False
  then show ?thesis by simp
qed

lemma held_addArticles: "held lf \<subseteq> held (addArticles as lf)"
proof -
  from addArticles_while_spec [of as "batches lf"] obtain cs where
    "addArticles_while as (batches lf) = batches lf @ map batchOf cs" by blast
  then show ?thesis by (auto simp: held_def addArticles_def)
qed

lemma held_markLast: "held (markLastBatchUndesirable lf) = held lf"
proof (cases "lastBatchIndex lf")
  case None
  then show ?thesis by (simp add: markLastBatchUndesirable_def)
next
  case (Some i)
  let ?bs = "batches lf" and ?st = "undesirableBatchStack lf"
  show ?thesis
  proof (cases "i < length ?bs")
    case True
    have h: "held (markLastBatchUndesirable lf) =
        set (take i ?bs @ drop (Suc i) ?bs) \<union> {b. Some b \<in> set ?st \<or> b = ?bs ! i}"
      using Some True by (auto simp: held_def markLastBatchUndesirable_def)
    from set_splice [of ?bs i] True
    have "set ?bs = set (take i ?bs @ drop (Suc i) ?bs) \<union> {?bs ! i}" by simp
    then have "held lf = set (take i ?bs @ drop (Suc i) ?bs) \<union> {?bs ! i} \<union> {b. Some b \<in> set ?st}"
      unfolding held_def by simp
    with h show ?thesis by blast
  next
    case False
    then have "take i ?bs @ drop (Suc i) ?bs = ?bs" by simp
    with Some False show ?thesis by (simp add: held_def markLastBatchUndesirable_def)
  qed
qed

lemma held_markAll: "held (markAllBatchesUndesirable lf) = held lf"
  by (auto simp: held_def markAllBatchesUndesirable_def)

text \<open>
What \<^verbatim>\<open>fetch\<close> does up to the request, when it issues one.
\<close>

lemma fetch_start_cases:
  assumes "fetch_start lf = (Issued b req, lf1)"
  shows "req = (direction lf, titlesParam b, continueParam b) \<and>
    (batches lf \<noteq> [] \<and>
       lf1 = lf\<lparr>batchIndex := (batchIndex lf + 1) mod length (batches lf)\<rparr> \<and>
       b = batches lf ! ((batchIndex lf + 1) mod length (batches lf))
     \<or> batches lf = [] \<and> undesirableBatchStack lf \<noteq> [] \<and>
       last (undesirableBatchStack lf) = Some b \<and>
       lf1 = lf\<lparr>undesirableBatchStack := butlast (undesirableBatchStack lf),
                batches := [b], batchIndex := 0\<rparr>)"
proof (cases "batches lf = []")
  case False
  with assms show ?thesis
    by (simp add: fetch_start_def fetch_select_def Let_def complete_def) blast
next
  case True
  show ?thesis
  proof (cases "undesirableBatchStack lf = []")
    case e: True
    with True assms show ?thesis by (simp add: fetch_start_def complete_def)
  next
    case ne: False
    show ?thesis
    proof (cases "last (undesirableBatchStack lf)")
      case None
      with True ne assms show ?thesis
        by (simp add: fetch_start_def fetch_select_def complete_def)
    next
      case (Some b')
      with True ne assms show ?thesis
        by (simp add: fetch_start_def fetch_select_def complete_def) blast
    qed
  qed
qed

lemma fetch_start_Issued:
  assumes "fetch_start lf = (Issued b req, lf1)"
  shows "req = (direction lf, titlesParam b, continueParam b)"
    and "batchIndex lf1 < length (batches lf1)"
    and "batches lf1 ! batchIndex lf1 = b"
    and "held lf1 = held lf"
    and "direction lf1 = direction lf"
proof -
  note c = fetch_start_cases [OF assms]
  from c show "req = (direction lf, titlesParam b, continueParam b)" by simp
  from c consider
    (rot) "batches lf \<noteq> []"
      "lf1 = lf\<lparr>batchIndex := (batchIndex lf + 1) mod length (batches lf)\<rparr>"
      "b = batches lf ! ((batchIndex lf + 1) mod length (batches lf))"
  | (pop) "batches lf = []" "undesirableBatchStack lf \<noteq> []"
      "last (undesirableBatchStack lf) = Some b"
      "lf1 = lf\<lparr>undesirableBatchStack := butlast (undesirableBatchStack lf),
                batches := [b], batchIndex := 0\<rparr>"
    by blast
  then show "batchIndex lf1 < length (batches lf1)"
    by cases simp_all
  from c show "batches lf1 ! batchIndex lf1 = b" by auto
  from c show "direction lf1 = direction lf" by auto
  from c consider
    (rot) "batches lf \<noteq> []"
      "lf1 = lf\<lparr>batchIndex := (batchIndex lf + 1) mod length (batches lf)\<rparr>"
  | (pop) "batches lf = []" "undesirableBatchStack lf \<noteq> []"
      "last (undesirableBatchStack lf) = Some b"
      "lf1 = lf\<lparr>undesirableBatchStack := butlast (undesirableBatchStack lf),
                batches := [b], batchIndex := 0\<rparr>"
    by blast
  then show "held lf1 = held lf"
  proof cases
    case rot
    then show ?thesis by (simp add: held_def)
  next
    case pop
    from pop(2) have "butlast (undesirableBatchStack lf) @ [last (undesirableBatchStack lf)] =
        undesirableBatchStack lf" by simp
    then have "set (undesirableBatchStack lf) =
        set (butlast (undesirableBatchStack lf)) \<union> {Some b}"
      unfolding pop(3) by (metis Un_insert_right list.simps(15) set_append sup_bot.right_neutral list.set(1))
    then have "{x. Some x \<in> set (undesirableBatchStack lf)} =
        {x. Some x \<in> set (butlast (undesirableBatchStack lf))} \<union> {b}" by auto
    then show ?thesis by (simp add: held_def pop(1) pop(4))
  qed
qed

lemma fetch_start_Immediate:
  "fetch_start lf = (Immediate, lf1) \<Longrightarrow> lf1 = lf"
  by (auto simp: fetch_start_def split: if_splits prod.splits option.splits)

lemma held_fetch_then_other:
  assumes "x \<in> held lf" "x \<noteq> b" "batchIndex lf < length (batches lf)"
    "batches lf ! batchIndex lf = b"
  shows "x \<in> held (snd (fetch_then lf b r))"
proof (cases "truthy (cursor r)")
  case True
  show ?thesis
  proof (cases "x \<in> set (batches lf)")
    case False
    with assms(1) True show ?thesis by (simp add: held_def fetch_then_def)
  next
    case in_rot: True
    then obtain j where j: "j < length (batches lf)" "batches lf ! j = x"
      by (auto simp: in_set_conv_nth)
    with assms(2,4) have "j \<noteq> batchIndex lf" by auto
    with j have "(batches lf)[batchIndex lf := b\<lparr>continueParam := cursor r\<rparr>] ! j = x" by simp
    with j(1) have "x \<in> set ((batches lf)[batchIndex lf := b\<lparr>continueParam := cursor r\<rparr>])"
      by (metis length_list_update nth_mem)
    with True show ?thesis by (simp add: held_def fetch_then_def)
  qed
next
  case False
  from set_splice [of "batches lf" "batchIndex lf"] assms
  have "x \<in> set (take (batchIndex lf) (batches lf) @ drop (Suc (batchIndex lf)) (batches lf))
      \<or> Some x \<in> set (undesirableBatchStack lf)"
    by (auto simp: held_def)
  with False show ?thesis by (auto simp: held_def fetch_then_def)
qed

lemma held_fetch_then:
  assumes "x \<in> held (snd (fetch_then lf b r))"
  shows "x \<in> held lf \<or> x = b\<lparr>continueParam := cursor r\<rparr>"
proof (cases "truthy (cursor r)")
  case True
  with assms have "x \<in> set ((batches lf)[batchIndex lf := b\<lparr>continueParam := cursor r\<rparr>])
      \<or> Some x \<in> set (undesirableBatchStack lf)"
    by (auto simp: held_def fetch_then_def)
  then show ?thesis
    using set_update_subset_insert [of "batches lf" "batchIndex lf" "b\<lparr>continueParam := cursor r\<rparr>"]
    by (auto simp: held_def)
next
  case False
  with assms have "x \<in> set (take (batchIndex lf) (batches lf)) \<or>
      x \<in> set (drop (Suc (batchIndex lf)) (batches lf)) \<or> Some x \<in> set (undesirableBatchStack lf)"
    by (auto simp: held_def fetch_then_def)
  then show ?thesis by (auto simp: held_def dest: in_set_takeD in_set_dropD)
qed

text \<open>
  When \<^verbatim>\<open>fetch\<close> issues a request, it calls the link source with the direction of
  the fetcher and the parameter and cursor of the chosen batch, and handles the answer.
\<close>

lemma fetch_Issued:
  assumes "fetch_start lf = (Issued b req, lf1)"
  shows "fetch src lf =
    (case src (direction lf) (titlesParam b) (continueParam b) of
       Inl e \<Rightarrow> Inl e
     | Inr r \<Rightarrow> Inr (fetch_then lf1 b r))"
proof -
  from fetch_start_Issued(1) [OF assms]
  have "fetch_start lf = (Issued b (direction lf, titlesParam b, continueParam b), lf1)"
    using assms by simp
  then show ?thesis by (simp add: fetch_def)
qed

lemma undisturbed_held:
  "undisturbed x lf lf' \<Longrightarrow> x \<in> held lf \<Longrightarrow> x \<in> held lf'"
proof (induction rule: undisturbed.induct)
  case (same lf)
  then show ?case .
next
  case (added lf lf' as)
  then show ?case using held_addArticles by blast
next
  case (marked lf lf')
  then show ?case by (simp add: held_markLast)
next
  case (marked_all lf lf')
  then show ?case by (simp add: held_markAll)
next
  case (fetched_other lf lf' b req lf1 src lm lf2)
  note s = fetch_start_Issued [OF fetched_other.hyps(2)]
  from fetched_other.hyps(4) fetch_Issued [OF fetched_other.hyps(2), of src]
  obtain r where "fetch_then lf1 b r = (lm, lf2)"
    by (cases "src (direction lf') (titlesParam b) (continueParam b)") simp_all
  then have lf2: "lf2 = snd (fetch_then lf1 b r)" by simp
  from fetched_other.IH fetched_other.prems have "x \<in> held lf'" by simp
  with s(4) have "x \<in> held lf1" by simp
  moreover from fetched_other.hyps(3) have "x \<noteq> b" by simp
  ultimately show ?case unfolding lf2 using s(2) s(3) by (rule held_fetch_then_other)
qed

text \<open>
  Claim C6. Let \<^verbatim>\<open>fetch\<close> choose the batch \<open>b\<close>, and let the link source answer
  the request for it, which carries the cursor stored on \<open>b\<close>, with a result \<open>r\<close>
  whose cursor \<open>c\<close> is a non-empty string. Then \<^verbatim>\<open>fetch\<close> returns the link map
  of \<open>r\<close> as it is, and afterwards the batch stands in the rotation at \<open>batchIndex\<close>
  with \<open>c\<close> as its cursor and is the demotion candidate. The batch with this cursor stays
  held, in the rotation or on the stack, whatever batches are added or demoted and
  whatever other batches are fetched; and any \<^verbatim>\<open>fetch\<close> that chooses it, against
  any link source, calls that source with the parameter of the batch and the cursor \<open>c\<close>
  and handles its answer.
\<close>

theorem cursor_reused_verbatim:
  assumes "fetch_start lf = (Issued b req, lf1)"
    and "src (direction lf) (titlesParam b) (continueParam b) = Inr r"
    and "cursor r = Some c" "c \<noteq> []"
  shows "\<exists>lf2. fetch src lf = Inr (linkMap r, lf2)
       \<and> batchIndex lf2 < length (batches lf2)
       \<and> batches lf2 ! batchIndex lf2 = b\<lparr>continueParam := Some c\<rparr>
       \<and> lastBatchIndex lf2 = Some (batchIndex lf2)
       \<and> (\<forall>lf3. undisturbed (b\<lparr>continueParam := Some c\<rparr>) lf2 lf3 \<longrightarrow>
             b\<lparr>continueParam := Some c\<rparr> \<in> held lf3)
       \<and> (\<forall>src' lf3 req' lf4.
             fetch_start lf3 = (Issued (b\<lparr>continueParam := Some c\<rparr>) req', lf4) \<longrightarrow>
             fetch src' lf3 =
               (case src' (direction lf3) (titlesParam b) (Some c) of
                  Inl e \<Rightarrow> Inl e
                | Inr r' \<Rightarrow> Inr (fetch_then lf4 (b\<lparr>continueParam := Some c\<rparr>) r')))"
proof -
  note s = fetch_start_Issued [OF assms(1)]
  define lf2 where "lf2 = lf1\<lparr>batches := (batches lf1)[batchIndex lf1 := b\<lparr>continueParam := Some c\<rparr>],
               lastBatchIndex := Some (batchIndex lf1)\<rparr>"
  from assms(3,4) have t: "truthy (cursor r)" by (simp add: truthy_def)
  with assms(3) have "fetch_then lf1 b r = (linkMap r, lf2)"
    by (simp add: fetch_then_def lf2_def)
  with fetch_Issued [OF assms(1), of src] assms(2)
  have 0: "fetch src lf = Inr (linkMap r, lf2)" by simp
  have 1: "batchIndex lf2 < length (batches lf2)" using s(2) by (simp add: lf2_def)
  have 2: "batches lf2 ! batchIndex lf2 = b\<lparr>continueParam := Some c\<rparr>"
    using s(2) by (simp add: lf2_def)
  have 3: "lastBatchIndex lf2 = Some (batchIndex lf2)" by (simp add: lf2_def)
  have "b\<lparr>continueParam := Some c\<rparr> \<in> held lf2"
    using 1 2 unfolding held_def by (metis UnI1 nth_mem)
  then have 4: "\<forall>lf3. undisturbed (b\<lparr>continueParam := Some c\<rparr>) lf2 lf3 \<longrightarrow>
             b\<lparr>continueParam := Some c\<rparr> \<in> held lf3"
    using undisturbed_held by blast
  have 5: "\<forall>src' lf3 req' lf4.
             fetch_start lf3 = (Issued (b\<lparr>continueParam := Some c\<rparr>) req', lf4) \<longrightarrow>
             fetch src' lf3 =
               (case src' (direction lf3) (titlesParam b) (Some c) of
                  Inl e \<Rightarrow> Inl e
                | Inr r' \<Rightarrow> Inr (fetch_then lf4 (b\<lparr>continueParam := Some c\<rparr>) r'))"
  proof (intro allI impI)
    fix src' lf3 req' lf4
    assume "fetch_start lf3 = (Issued (b\<lparr>continueParam := Some c\<rparr>) req', lf4)"
    from fetch_Issued [OF this, of src']
    show "fetch src' lf3 =
               (case src' (direction lf3) (titlesParam b) (Some c) of
                  Inl e \<Rightarrow> Inl e
                | Inr r' \<Rightarrow> Inr (fetch_then lf4 (b\<lparr>continueParam := Some c\<rparr>) r'))"
      by simp
  qed
  from 0 1 2 3 4 5 show ?thesis by blast
qed

text \<open>
  The batch of A is fetched against \<open>paged_source\<close>: the first \<^verbatim>\<open>fetch\<close> returns
  the first page and stores \<^verbatim>\<open>k1\<close>; the batch is demoted; the next
  \<^verbatim>\<open>fetch\<close> takes it back from the stack and returns the last page, the answer of
  the source to the cursor \<^verbatim>\<open>k1\<close> and to no other.
\<close>

theorem cursor_reused_verbatim_witness:
  "fetch paged_source paged_fetcher = Inr ([(''A'', [''B''])], paged_fetcher2)
   \<and> batches paged_fetcher2 ! batchIndex paged_fetcher2 =
        \<lparr>articles = [], titlesParam = ''A'', continueParam = Some ''k1''\<rparr>
   \<and> lastBatchIndex paged_fetcher2 = Some (batchIndex paged_fetcher2)
   \<and> \<lparr>articles = [], titlesParam = ''A'', continueParam = Some ''k1''\<rparr>
        \<in> held (markLastBatchUndesirable paged_fetcher2)
   \<and> fetch paged_source (markLastBatchUndesirable paged_fetcher2) =
        Inr ([(''A'', [''C''])],
             \<lparr>direction = Forward, batchIndex = 0, lastBatchIndex = None, batches = [],
              undesirableBatchStack = []\<rparr>)"
proof -
  let ?b = "\<lparr>articles = [], titlesParam = ''A'', continueParam = None\<rparr>"
  let ?b' = "\<lparr>articles = [], titlesParam = ''A'', continueParam = Some ''k1''\<rparr>"
  let ?r = "\<lparr>linkMap = [(''A'', [''B''])], cursor = Some ''k1''\<rparr>"
  let ?lf4 = "\<lparr>direction = Forward, batchIndex = 0, lastBatchIndex = None, batches = [?b'],
              undesirableBatchStack = []\<rparr>"
  have s: "fetch_start paged_fetcher = (Issued ?b (Forward, ''A'', None), paged_fetcher)"
    by (simp add: paged_eval)
  have a: "paged_source (direction paged_fetcher) (titlesParam ?b) (continueParam ?b) = Inr ?r"
    by (simp add: paged_source_def)
  have c: "cursor ?r = Some ''k1''" "''k1'' \<noteq> []" by simp_all
  have b': "?b\<lparr>continueParam := Some ''k1''\<rparr> = ?b'" by simp
  from cursor_reused_verbatim [where src = paged_source, OF s a c, unfolded b'] obtain lf2 where
    0: "fetch paged_source paged_fetcher = Inr (linkMap ?r, lf2)"
    and 1: "batches lf2 ! batchIndex lf2 = ?b'"
    and 2: "lastBatchIndex lf2 = Some (batchIndex lf2)"
    and 3: "\<forall>lf3. undisturbed ?b' lf2 lf3 \<longrightarrow> ?b' \<in> held lf3"
    and 4: "\<forall>src' lf3 req' lf4.
             fetch_start lf3 = (Issued ?b' req', lf4) \<longrightarrow>
             fetch src' lf3 =
               (case src' (direction lf3) (titlesParam ?b) (Some ''k1'') of
                  Inl e \<Rightarrow> Inl e
                | Inr r' \<Rightarrow> Inr (fetch_then lf4 ?b' r'))"
    by blast
  from 0 have lf2: "lf2 = paged_fetcher2" by (simp add: paged_fetcher2_def)
  have u: "undisturbed ?b' paged_fetcher2 (markLastBatchUndesirable paged_fetcher2)"
    by (rule undisturbed.marked [OF undisturbed.same])
  with 3 have 5: "?b' \<in> held (markLastBatchUndesirable paged_fetcher2)"
    unfolding lf2 by blast
  have n: "fetch_start (markLastBatchUndesirable paged_fetcher2) =
      (Issued ?b' (Forward, ''A'', Some ''k1''), ?lf4)"
    by (simp add: paged_eval)
  have d: "direction (markLastBatchUndesirable paged_fetcher2) = Forward"
    by (simp add: paged_eval)
  from 4 [rule_format, OF n, of paged_source]
  have 6: "fetch paged_source (markLastBatchUndesirable paged_fetcher2) =
      (case paged_source Forward ''A'' (Some ''k1'') of
         Inl e \<Rightarrow> Inl e
       | Inr r' \<Rightarrow> Inr (fetch_then ?lf4 ?b' r'))"
    by (simp add: d)
  have 7: "fetch paged_source (markLastBatchUndesirable paged_fetcher2) =
        Inr ([(''A'', [''C''])],
             \<lparr>direction = Forward, batchIndex = 0, lastBatchIndex = None, batches = [],
              undesirableBatchStack = []\<rparr>)"
    unfolding 6 by (simp add: paged_source_def fetch_then_def truthy_def)
  from 0 1 2 5 7 show ?thesis unfolding lf2 by simp
qed

lemma addArticles_stack [simp]:
  "undesirableBatchStack (addArticles as lf) = undesirableBatchStack lf"
  by (simp add: addArticles_def)

text \<open>
  Claim C3, as the code has it. A parked batch returns to the rotation through
  \<^verbatim>\<open>fetch\<close>, not through diversification: called while the rotation is empty and
  the stack is not, \<^verbatim>\<open>fetch\<close> pops the batch parked last, makes it the only
  active batch and issues its request with its stored cursor. Only when both are empty
  does it resolve with an empty link map and no request. A fetch from a non-empty
  rotation, the handling of a response, \<^verbatim>\<open>addArticles\<close>, diversification and the
  two demotions never take a batch off the stack.
\<close>

theorem parked_batches_return_by_fetch:
  "(batches lf = [] \<and> undesirableBatchStack lf = st @ [Some b] \<longrightarrow>
      fetch_start lf =
        (Issued b (direction lf, titlesParam b, continueParam b),
         lf\<lparr>undesirableBatchStack := st, batches := [b], batchIndex := 0\<rparr>))
   \<and> (batches lf = [] \<and> undesirableBatchStack lf = [] \<longrightarrow>
      fetch_start lf = (Immediate, lf) \<and> fetch src lf = Inr ([], lf))
   \<and> (batches lf \<noteq> [] \<longrightarrow>
      undesirableBatchStack (snd (fetch_start lf)) = undesirableBatchStack lf)
   \<and> undesirableBatchStack (snd (fetch_then lf b r)) = undesirableBatchStack lf
   \<and> undesirableBatchStack (addArticles as lf) = undesirableBatchStack lf
   \<and> undesirableBatchStack (linkFetcher (diversify t)) = undesirableBatchStack (linkFetcher t)
   \<and> (\<exists>ys. undesirableBatchStack (markLastBatchUndesirable lf) = undesirableBatchStack lf @ ys)
   \<and> undesirableBatchStack (markAllBatchesUndesirable lf) =
       undesirableBatchStack lf @ map Some (batches lf)"
proof (intro conjI impI)
  assume "batches lf = [] \<and> undesirableBatchStack lf = st @ [Some b]"
  then show "fetch_start lf =
        (Issued b (direction lf, titlesParam b, continueParam b),
         lf\<lparr>undesirableBatchStack := st, batches := [b], batchIndex := 0\<rparr>)"
    by (simp add: fetch_start_def fetch_select_def complete_def)
next
  assume a: "batches lf = [] \<and> undesirableBatchStack lf = []"
  then show "fetch_start lf = (Immediate, lf)" by (simp add: fetch_start_def complete_def)
  from a show "fetch src lf = Inr ([], lf)" by (simp add: fetch_def fetch_start_def complete_def)
next
  assume "batches lf \<noteq> []"
  then show "undesirableBatchStack (snd (fetch_start lf)) = undesirableBatchStack lf"
    by (simp add: fetch_start_def fetch_select_def complete_def Let_def)
next
  show "undesirableBatchStack (snd (fetch_then lf b r)) = undesirableBatchStack lf"
    by (simp add: fetch_then_def)
  show "undesirableBatchStack (addArticles as lf) = undesirableBatchStack lf" by simp
  show "undesirableBatchStack (linkFetcher (diversify t)) = undesirableBatchStack (linkFetcher t)"
    by (simp add: diversify_def)
  show "\<exists>ys. undesirableBatchStack (markLastBatchUndesirable lf) = undesirableBatchStack lf @ ys"
    by (simp add: markLastBatchUndesirable_def split: option.splits)
  show "undesirableBatchStack (markAllBatchesUndesirable lf) =
       undesirableBatchStack lf @ map Some (batches lf)"
    by (simp add: markAllBatchesUndesirable_def)
qed

theorem parked_batches_return_by_fetch_witness:
  "batches (linkFetcher parked_tree) = []
   \<and> undesirableBatchStack (linkFetcher parked_tree) =
       [Some \<lparr>articles = [], titlesParam = ''A'', continueParam = Some ''k1''\<rparr>] @
       [Some \<lparr>articles = [], titlesParam = ''B'', continueParam = Some ''k2''\<rparr>]
   \<and> fetch_start (linkFetcher parked_tree) =
       (Issued \<lparr>articles = [], titlesParam = ''B'', continueParam = Some ''k2''\<rparr>
          (Forward, ''B'', Some ''k2''),
        (linkFetcher parked_tree)
          \<lparr>undesirableBatchStack := [Some \<lparr>articles = [], titlesParam = ''A'', continueParam = Some ''k1''\<rparr>],
           batches := [\<lparr>articles = [], titlesParam = ''B'', continueParam = Some ''k2''\<rparr>],
           batchIndex := 0\<rparr>)
   \<and> fetch_start (LinkFetcher_new Forward) = (Immediate, LinkFetcher_new Forward)
   \<and> batches (addArticles [''A''] (LinkFetcher_new Forward)) \<noteq> []
   \<and> undesirableBatchStack (snd (fetch_start (addArticles [''A''] (LinkFetcher_new Forward)))) = []"
proof -
  have 1: "batches (linkFetcher parked_tree) = []"
    and 2: "undesirableBatchStack (linkFetcher parked_tree) =
       [Some \<lparr>articles = [], titlesParam = ''A'', continueParam = Some ''k1''\<rparr>] @
       [Some \<lparr>articles = [], titlesParam = ''B'', continueParam = Some ''k2''\<rparr>]"
    and 3: "direction (linkFetcher parked_tree) = Forward"
    by (simp_all add: parked_tree_def parked_source_def tree_eval fetcher_eval)
  have 4: "batches (LinkFetcher_new Forward) = [] \<and> undesirableBatchStack (LinkFetcher_new Forward) = []"
    by (simp add: LinkFetcher_new_def)
  have 5: "batches (addArticles [''A''] (LinkFetcher_new Forward)) \<noteq> []"
    by (simp add: fetcher_eval)
  from parked_batches_return_by_fetch
    [of "linkFetcher parked_tree"
      "[Some \<lparr>articles = [], titlesParam = ''A'', continueParam = Some ''k1''\<rparr>]"
      "\<lparr>articles = [], titlesParam = ''B'', continueParam = Some ''k2''\<rparr>"]
    parked_batches_return_by_fetch [of "LinkFetcher_new Forward"]
    parked_batches_return_by_fetch [of "addArticles [''A''] (LinkFetcher_new Forward)"]
    1 2 3 4 5
  show ?thesis by (simp add: LinkFetcher_new_def)
qed

text \<open>
  After two steps from A both batches are parked, the rotation is empty and nothing is
  queued, so diversification adds nothing; \<^verbatim>\<open>fetch\<close> then issues the request of
  the batch of B, taken from the undesirable stack.
\<close>

theorem fetch_pops_parked_batch:
  "batches (linkFetcher parked_tree) = []
   \<and> undesirableBatchStack (linkFetcher parked_tree) =
       [Some \<lparr>articles = [], titlesParam = ''A'', continueParam = Some ''k1''\<rparr>,
        Some \<lparr>articles = [], titlesParam = ''B'', continueParam = Some ''k2''\<rparr>]
   \<and> toExplore parked_tree = []
   \<and> fst (fetch_start (linkFetcher parked_tree)) =
       Issued \<lparr>articles = [], titlesParam = ''B'', continueParam = Some ''k2''\<rparr>
         (Forward, ''B'', Some ''k2'')
   \<and> batches (snd (fetch_start (linkFetcher parked_tree))) =
       [\<lparr>articles = [], titlesParam = ''B'', continueParam = Some ''k2''\<rparr>]"
  by (simp add: parked_tree_def parked_source_def tree_eval fetcher_eval)

section \<open>The yield policy\<close>

lemma insertChild_frame:
  "linkFetcher (fst (insertChild p c s)) = linkFetcher (fst s)"
  "consecutiveUndesirableBatches (fst (insertChild p c s)) = consecutiveUndesirableBatches (fst s)"
  by (cases s; simp add: insertChild_def Let_def)+

lemma fold_insertChild_frame:
  "linkFetcher (fst (fold (insertChild p) cs s)) = linkFetcher (fst s) \<and>
   consecutiveUndesirableBatches (fst (fold (insertChild p) cs s)) =
     consecutiveUndesirableBatches (fst s)"
  by (induction cs arbitrary: s) (simp_all add: insertChild_frame)

lemma exploreParent_frame:
  "linkFetcher (fst (exploreParent e s)) = linkFetcher (fst s) \<and>
   consecutiveUndesirableBatches (fst (exploreParent e s)) = consecutiveUndesirableBatches (fst s)"
  by (cases e; cases s) (simp add: exploreParent_def Let_def fold_insertChild_frame)

lemma fold_exploreParent_frame:
  "linkFetcher (fst (fold exploreParent lm s)) = linkFetcher (fst s) \<and>
   consecutiveUndesirableBatches (fst (fold exploreParent lm s)) =
     consecutiveUndesirableBatches (fst s)"
  by (induction lm arbitrary: s) (simp_all add: exploreParent_frame)

text \<open>
What one successful step does to the fetcher and the counter.
\<close>

lemma explore_policy:
  assumes "explore src t = Inr (new, t')"
  shows "\<exists>lm lf. fetch src (linkFetcher (if noDesirableBatches (linkFetcher t) then diversify t else t))
            = Inr (lm, lf)
         \<and> linkFetcher t' =
             (if length new < 10
              then (if consecutiveUndesirableBatches t + 1 \<ge> 4
                    then markAllBatchesUndesirable (markLastBatchUndesirable lf)
                    else markLastBatchUndesirable lf)
              else lf)
         \<and> consecutiveUndesirableBatches t' =
             (if length new < 10 \<and> consecutiveUndesirableBatches t + 1 < 4
              then consecutiveUndesirableBatches t + 1 else 0)"
proof -
  let ?t0 = "if noDesirableBatches (linkFetcher t) then diversify t else t"
  from assms obtain lm lf where f: "fetch src (linkFetcher ?t0) = Inr (lm, lf)"
    and r: "(new, t') = explore_then (?t0\<lparr>linkFetcher := lf\<rparr>) lm"
    by (auto simp: explore_def Let_def split: if_splits sum.splits)
  obtain t1 n1 where
    fold: "fold exploreParent (objectEntries lm) (?t0\<lparr>linkFetcher := lf\<rparr>, []) = (t1, n1)"
    by (cases "fold exploreParent (objectEntries lm) (?t0\<lparr>linkFetcher := lf\<rparr>, [])")
  have keep: "linkFetcher t1 = lf \<and> consecutiveUndesirableBatches t1 = consecutiveUndesirableBatches t"
    using fold_exploreParent_frame [of "objectEntries lm" "(?t0\<lparr>linkFetcher := lf\<rparr>, [])"]
    by (simp add: fold diversify_def)
  from r fold have new: "new = n1"
    and t': "t' = (yieldPolicy (length n1) t1)\<lparr>treeSize := treeSize (yieldPolicy (length n1) t1) + length n1,
        fringeSize := fringeSize (yieldPolicy (length n1) t1) + int (length n1)\<rparr>"
    by (simp_all add: explore_then_def Let_def)
  from keep show ?thesis
    using f by (auto simp: new t' yieldPolicy_def Let_def)
qed

text \<open>
  Claim C5. A step that inserts fewer than 10 titles calls
  \<^verbatim>\<open>markLastBatchUndesirable\<close> on the fetcher that the fetch left and increments
  the counter; when the counter reaches 4 it also calls
  \<^verbatim>\<open>markAllBatchesUndesirable\<close> and resets the counter; a step that inserts at
  least 10 titles leaves the fetcher as the fetch left it and resets the counter. So
  four consecutive steps with fewer than 10 new titles, from a counter of 0, bring the
  counter to 1, 2, 3 and 0, and after the fourth the rotation is empty, its batches
  moved onto the undesirable stack.
\<close>

theorem low_yield_policy:
  assumes "consecutiveUndesirableBatches t0 = 0"
    and "explore s1 t0 = Inr (n1, t1)" "length n1 < 10"
    and "explore s2 t1 = Inr (n2, t2)" "length n2 < 10"
    and "explore s3 t2 = Inr (n3, t3)" "length n3 < 10"
    and "explore s4 t3 = Inr (n4, t4)" "length n4 < 10"
  shows "(\<forall>src t new t'. explore src t = Inr (new, t') \<longrightarrow>
            (\<exists>lm lf. fetch src (linkFetcher (if noDesirableBatches (linkFetcher t) then diversify t else t))
                 = Inr (lm, lf)
               \<and> linkFetcher t' =
                   (if length new < 10
                    then (if consecutiveUndesirableBatches t + 1 \<ge> 4
                          then markAllBatchesUndesirable (markLastBatchUndesirable lf)
                          else markLastBatchUndesirable lf)
                    else lf)
               \<and> consecutiveUndesirableBatches t' =
                   (if length new < 10 \<and> consecutiveUndesirableBatches t + 1 < 4
                    then consecutiveUndesirableBatches t + 1 else 0)))
       \<and> consecutiveUndesirableBatches t1 = 1
       \<and> consecutiveUndesirableBatches t2 = 2
       \<and> consecutiveUndesirableBatches t3 = 3
       \<and> consecutiveUndesirableBatches t4 = 0
       \<and> batches (linkFetcher t4) = []
       \<and> (\<exists>lm lf. fetch s4 (linkFetcher (if noDesirableBatches (linkFetcher t3) then diversify t3 else t3))
               = Inr (lm, lf)
            \<and> undesirableBatchStack (linkFetcher t4) =
                undesirableBatchStack (markLastBatchUndesirable lf) @
                map Some (batches (markLastBatchUndesirable lf)))"
proof -
  have c1: "consecutiveUndesirableBatches t1 = 1"
    using explore_policy [OF assms(2)] assms(1,3) by auto
  have c2: "consecutiveUndesirableBatches t2 = 2"
    using explore_policy [OF assms(4)] c1 assms(5) by auto
  have c3: "consecutiveUndesirableBatches t3 = 3"
    using explore_policy [OF assms(6)] c2 assms(7) by auto
  from explore_policy [OF assms(8)] c3 assms(9)
  obtain lm lf where f: "fetch s4 (linkFetcher (if noDesirableBatches (linkFetcher t3) then diversify t3 else t3))
        = Inr (lm, lf)"
    and l: "linkFetcher t4 = markAllBatchesUndesirable (markLastBatchUndesirable lf)"
    and c4: "consecutiveUndesirableBatches t4 = 0"
    by auto
  have b: "batches (linkFetcher t4) = []" by (simp add: l markAllBatchesUndesirable_def)
  have u: "undesirableBatchStack (linkFetcher t4) =
      undesirableBatchStack (markLastBatchUndesirable lf) @
      map Some (batches (markLastBatchUndesirable lf))"
    by (simp add: l markAllBatchesUndesirable_def)
  show ?thesis
    using c1 c2 c3 c4 b f u explore_policy by blast
qed

theorem low_yield_policy_witness:
  "consecutiveUndesirableBatches (ArticleTree_new ''A'' Forward) = 0
   \<and> explore stall_source (ArticleTree_new ''A'' Forward) = Inr ([], stall_tree1)
   \<and> explore stall_source stall_tree1 = Inr ([], stall_tree2)
   \<and> explore stall_source stall_tree2 = Inr ([], stall_tree3)
   \<and> explore stall_source stall_tree3 = Inr ([], stall_tree4)
   \<and> consecutiveUndesirableBatches stall_tree3 = 3
   \<and> consecutiveUndesirableBatches stall_tree4 = 0
   \<and> batches (linkFetcher stall_tree4) = []
   \<and> undesirableBatchStack (linkFetcher stall_tree4) =
       [Some \<lparr>articles = [], titlesParam = ''A'', continueParam = Some ''k''\<rparr>]"
proof -
  have 0: "consecutiveUndesirableBatches (ArticleTree_new ''A'' Forward) = 0"
    by (simp add: ArticleTree_new_def)
  have 1: "explore stall_source (ArticleTree_new ''A'' Forward) = Inr ([], stall_tree1)"
    by (simp add: stall_eval)
  have 2: "explore stall_source stall_tree1 = Inr ([], stall_tree2)"
    by (simp add: stall_eval)
  have 3: "explore stall_source stall_tree2 = Inr ([], stall_tree3)"
    by (simp add: stall_eval)
  have 4: "explore stall_source stall_tree3 = Inr ([], stall_tree4)"
    by (simp add: stall_eval)
  have 5: "undesirableBatchStack (linkFetcher stall_tree4) =
       [Some \<lparr>articles = [], titlesParam = ''A'', continueParam = Some ''k''\<rparr>]"
    by (simp add: stall_eval)
  from low_yield_policy [OF 0 1 _ 2 _ 3 _ 4] 0 1 2 3 4 5 show ?thesis by simp
qed

section \<open>Parents and depths\<close>

lemma insertChild_treeObj:
  "treeObj (fst (insertChild p c (t, n))) = (treeObj t)(c \<mapsto> p)"
  by (simp add: insertChild_def Let_def)

lemma insertChild_depthMap:
  "depthMap (fst (insertChild p c (t, n))) =
     (depthMap t)(c \<mapsto> (case depthMap t p of Some (Num d) \<Rightarrow> Num (d + 1) | _ \<Rightarrow> NaN))"
  by (simp add: insertChild_def Let_def)

lemma insertChild_snd: "snd (insertChild p c (t, n)) = n @ [c]"
  by (simp add: insertChild_def Let_def)

lemma insertChild_toExplore:
  "toExplore (fst (insertChild p c s)) = toExplore (fst s) @ [c]"
  by (cases s) (simp add: insertChild_def Let_def)

lemma tree_inv_depth:
  assumes "tree_inv r t" "x \<in> dom (treeObj t)"
  shows "\<exists>d. depthMap t x = Some (Num d)"
proof (cases "x = r")
  case True
  with assms show ?thesis by (simp add: tree_inv_def)
next
  case False
  from assms(2) obtain p where "treeObj t x = Some p" by auto
  with assms(1) False show ?thesis unfolding tree_inv_def by blast
qed

lemma tree_inv_cong:
  "treeObj t' = treeObj t \<Longrightarrow> depthMap t' = depthMap t \<Longrightarrow> tree_inv r t' = tree_inv r t"
  by (simp add: tree_inv_def)

lemma tree_inv_new: "r \<noteq> ''_root'' \<Longrightarrow> tree_inv r (ArticleTree_new r d)"
  by (simp add: tree_inv_def ArticleTree_new_def)

lemma tree_inv_insertChild:
  assumes inv: "tree_inv r t"
    and p: "p \<in> dom (treeObj t)"
    and c: "c \<noteq> ''_root''"
    and new: "c \<notin> dom (treeObj t) \<or> treeObj t c = Some p"
  shows "tree_inv r (fst (insertChild p c (t, n)))"
proof -
  from tree_inv_depth [OF inv p] obtain d where d: "depthMap t p = Some (Num d)" by blast
  from inv have root: "treeObj t r = Some ''_root''" and nr: "''_root'' \<notin> dom (treeObj t)"
    by (simp_all add: tree_inv_def)
  from p nr have pr: "p \<noteq> ''_root''" by auto
  have cr: "c \<noteq> r"
  proof
    assume "c = r"
    with new root pr show False by auto
  qed
  have cp: "c \<noteq> p"
  proof
    assume "c = p"
    with new p have "treeObj t p = Some p" by auto
    moreover have "p \<noteq> r" using \<open>c = p\<close> cr by simp
    ultimately obtain e where "depthMap t p = Some (Num e)" "depthMap t p = Some (Num (Suc e))"
      using inv unfolding tree_inv_def by blast
    then show False by simp
  qed
  let ?t' = "fst (insertChild p c (t, n))"
  have T: "treeObj ?t' = (treeObj t)(c \<mapsto> p)" by (rule insertChild_treeObj)
  have D: "depthMap ?t' = (depthMap t)(c \<mapsto> Num (Suc d))"
    by (simp add: insertChild_depthMap d)
  show ?thesis
    unfolding tree_inv_def
  proof (intro conjI allI impI)
    show "treeObj ?t' r = Some ''_root''" using root cr by (simp add: T)
    show "depthMap ?t' r = Some (Num 0)" using inv cr by (simp add: D tree_inv_def)
    show "''_root'' \<notin> dom (treeObj ?t')" using nr c by (simp add: T)
  next
    fix x q
    assume a: "treeObj ?t' x = Some q \<and> x \<noteq> r"
    show "q \<in> dom (treeObj ?t')"
    proof (cases "x = c")
      case True
      with a have "q = p" by (simp add: T)
      with p show ?thesis by (simp add: T)
    next
      case False
      with a have "treeObj t x = Some q" "x \<noteq> r" by (simp_all add: T)
      with inv have "q \<in> dom (treeObj t)" unfolding tree_inv_def by blast
      then show ?thesis by (simp add: T)
    qed
    show "\<exists>e. depthMap ?t' q = Some (Num e) \<and> depthMap ?t' x = Some (Num (Suc e))"
    proof (cases "x = c")
      case True
      with a have "q = p" by (simp add: T)
      with True cp d show ?thesis by (simp add: D)
    next
      case False
      with a have x: "treeObj t x = Some q" "x \<noteq> r" by (simp_all add: T)
      with inv obtain e where e: "depthMap t q = Some (Num e)" "depthMap t x = Some (Num (Suc e))"
        unfolding tree_inv_def by blast
      show ?thesis
      proof (cases "q = c")
        case qc: True
        from x inv have "q \<in> dom (treeObj t)" unfolding tree_inv_def by blast
        with qc new have "treeObj t c = Some p" by auto
        moreover note cr
        ultimately obtain f where "depthMap t p = Some (Num f)" "depthMap t c = Some (Num (Suc f))"
          using inv unfolding tree_inv_def by blast
        with d e qc False show ?thesis by (simp add: D)
      next
        case False
        with \<open>x \<noteq> c\<close> e show ?thesis by (simp add: D)
      qed
    qed
  qed
qed

lemma tree_inv_fold_insertChild:
  assumes "tree_inv r (fst s)" "p \<in> dom (treeObj (fst s))"
    and "\<forall>c\<in>set cs. c \<noteq> ''_root'' \<and> (c \<notin> dom (treeObj (fst s)) \<or> treeObj (fst s) c = Some p)"
  shows "tree_inv r (fst (fold (insertChild p) cs s))"
  using assms
proof (induction cs arbitrary: s)
  case Nil
  then show ?case by simp
next
  case (Cons c cs)
  obtain t n where s: "s = (t, n)" by (cases s)
  let ?s' = "insertChild p c s"
  have T: "treeObj (fst ?s') = (treeObj t)(c \<mapsto> p)" by (simp add: s insertChild_treeObj)
  have 1: "tree_inv r (fst ?s')"
    using Cons.prems unfolding s by (intro tree_inv_insertChild) auto
  have 2: "p \<in> dom (treeObj (fst ?s'))" using Cons.prems(2) unfolding T by (auto simp: s)
  have 3: "\<forall>c'\<in>set cs. c' \<noteq> ''_root'' \<and>
      (c' \<notin> dom (treeObj (fst ?s')) \<or> treeObj (fst ?s') c' = Some p)"
    using Cons.prems(3) unfolding T by (auto simp: s)
  show ?case using Cons.IH [OF 1 2 3] by simp
qed

lemma fold_insertChild_dom:
  "dom (treeObj (fst (fold (insertChild p) cs s))) = dom (treeObj (fst s)) \<union> set cs"
proof (induction cs arbitrary: s)
  case Nil
  then show ?case by simp
next
  case (Cons c cs)
  obtain t n where s: "s = (t, n)" by (cases s)
  show ?case by (simp add: Cons.IH) (auto simp: s insertChild_treeObj)
qed

lemma fold_insertChild_snd:
  "snd (fold (insertChild p) cs s) = snd s @ cs"
proof (induction cs arbitrary: s)
  case Nil
  then show ?case by simp
next
  case (Cons c cs)
  obtain t n where s: "s = (t, n)" by (cases s)
  show ?case by (simp add: Cons.IH) (simp add: s insertChild_snd)
qed

lemma fold_insertChild_agree:
  "x \<notin> set cs \<Longrightarrow>
     treeObj (fst (fold (insertChild p) cs s)) x = treeObj (fst s) x \<and>
     depthMap (fst (fold (insertChild p) cs s)) x = depthMap (fst s) x"
proof (induction cs arbitrary: s)
  case Nil
  then show ?case by simp
next
  case (Cons c cs)
  obtain t n where s: "s = (t, n)" by (cases s)
  from Cons.prems have "x \<noteq> c" "x \<notin> set cs" by auto
  with Cons.IH [of "insertChild p c s"] show ?case
    by (simp add: s insertChild_treeObj insertChild_depthMap)
qed

lemma fold_insertChild_toExplore:
  "toExplore (fst (fold (insertChild p) cs s)) = toExplore (fst s) @ cs"
  by (induction cs arbitrary: s) (simp_all add: insertChild_toExplore)

lemma exploreParent_unfold:
  "exploreParent (p, cs) (t, n) =
     fold (insertChild p) (filter (\<lambda>c. c \<notin> dom (treeObj t) \<and> \<not> inherited c) cs) (exploreParent_tree p t, n)"
  by (simp add: exploreParent_def exploreParent_tree_def containsPage_def Let_def)

lemma exploreParent_tree_maps [simp]:
  "treeObj (exploreParent_tree p t) = treeObj t" "depthMap (exploreParent_tree p t) = depthMap t"
  by (simp_all add: exploreParent_tree_def)

lemma exploreParent_dom:
  "dom (treeObj (fst (exploreParent (p, cs) (t, n)))) =
     dom (treeObj t) \<union> {c \<in> set cs. \<not> inherited c}"
  by (auto simp: exploreParent_unfold fold_insertChild_dom)

lemma exploreParent_agree:
  "x \<in> dom (treeObj t) \<Longrightarrow>
     treeObj (fst (exploreParent (p, cs) (t, n))) x = treeObj t x \<and>
     depthMap (fst (exploreParent (p, cs) (t, n))) x = depthMap t x"
  using fold_insertChild_agree [of x "filter (\<lambda>c. c \<notin> dom (treeObj t) \<and> \<not> inherited c) cs" p "(exploreParent_tree p t, n)"]
  by (simp add: exploreParent_unfold)

lemma tree_inv_exploreParent:
  assumes "tree_inv r t" "cs = [] \<or> p \<in> dom (treeObj t) \<and> ''_root'' \<notin> set cs"
  shows "tree_inv r (fst (exploreParent (p, cs) (t, n)))"
proof (cases "cs = []")
  case True
  with assms(1) show ?thesis
    by (simp add: exploreParent_unfold tree_inv_cong [of "exploreParent_tree p t" t])
next
  case False
  with assms(2) have p: "p \<in> dom (treeObj t)" and c: "''_root'' \<notin> set cs" by auto
  have "tree_inv r (fst (fold (insertChild p) (filter (\<lambda>c. c \<notin> dom (treeObj t) \<and> \<not> inherited c) cs)
      (exploreParent_tree p t, n)))"
  proof (rule tree_inv_fold_insertChild)
    show "tree_inv r (fst (exploreParent_tree p t, n))"
      using assms(1) by (simp add: tree_inv_cong [of "exploreParent_tree p t" t])
    show "p \<in> dom (treeObj (fst (exploreParent_tree p t, n)))" using p by simp
    show "\<forall>c\<in>set (filter (\<lambda>c. c \<notin> dom (treeObj t) \<and> \<not> inherited c) cs). c \<noteq> ''_root'' \<and>
        (c \<notin> dom (treeObj (fst (exploreParent_tree p t, n))) \<or>
         treeObj (fst (exploreParent_tree p t, n)) c = Some p)"
      using c by auto
  qed
  then show ?thesis by (simp add: exploreParent_unfold)
qed

lemma fold_exploreParent_dom_mono:
  "dom (treeObj (fst s)) \<subseteq> dom (treeObj (fst (fold exploreParent lm s)))"
proof (induction lm arbitrary: s)
  case Nil
  then show ?case by simp
next
  case (Cons e lm)
  obtain p cs where e: "e = (p, cs)" by (cases e)
  obtain t n where s: "s = (t, n)" by (cases s)
  have "dom (treeObj (fst s)) \<subseteq> dom (treeObj (fst (exploreParent e s)))"
    by (simp add: e s exploreParent_dom)
  with Cons.IH [of "exploreParent e s"] show ?case by auto
qed

lemma fold_exploreParent_agree:
  "x \<in> dom (treeObj (fst s)) \<Longrightarrow>
     treeObj (fst (fold exploreParent lm s)) x = treeObj (fst s) x \<and>
     depthMap (fst (fold exploreParent lm s)) x = depthMap (fst s) x"
proof (induction lm arbitrary: s)
  case Nil
  then show ?case by simp
next
  case (Cons e lm)
  obtain p cs where e: "e = (p, cs)" by (cases e)
  obtain t n where s: "s = (t, n)" by (cases s)
  from Cons.prems have x: "x \<in> dom (treeObj t)" by (simp add: s)
  then have "x \<in> dom (treeObj (fst (exploreParent e s)))"
    by (simp add: e s exploreParent_dom)
  from Cons.IH [OF this] exploreParent_agree [OF x, of p cs n] show ?case
    by (simp add: e s)
qed

lemma tree_inv_fold_exploreParent:
  assumes "tree_inv r (fst s)" "\<forall>e\<in>set lm. entry_ok (fst s) e"
  shows "tree_inv r (fst (fold exploreParent lm s))"
  using assms
proof (induction lm arbitrary: s)
  case Nil
  then show ?case by simp
next
  case (Cons e lm)
  obtain p cs where e: "e = (p, cs)" by (cases e)
  obtain t n where s: "s = (t, n)" by (cases s)
  from Cons.prems have "entry_ok t (p, cs)" by (simp add: e s)
  then have 1: "tree_inv r (fst (exploreParent e s))"
    using Cons.prems(1) unfolding e s entry_ok_def by (intro tree_inv_exploreParent) auto
  have "dom (treeObj t) \<subseteq> dom (treeObj (fst (exploreParent e s)))"
    by (simp add: e s exploreParent_dom)
  moreover from Cons.prems(2) have "\<forall>e'\<in>set lm. entry_ok t e'" by (simp add: s)
  ultimately have 2: "\<forall>e'\<in>set lm. entry_ok (fst (exploreParent e s)) e'"
    unfolding entry_ok_def by blast
  from Cons.IH [OF 1 2] show ?case by simp
qed

lemma yieldPolicy_maps [simp]:
  "treeObj (yieldPolicy k t) = treeObj t" "depthMap (yieldPolicy k t) = depthMap t"
  by (simp_all add: yieldPolicy_def Let_def)

lemma yieldPolicy_toExplore [simp]: "toExplore (yieldPolicy k t) = toExplore t"
  by (simp add: yieldPolicy_def Let_def)

text \<open>
\<^verbatim>\<open>Object.keys\<close> lists every entry of the link map, in some order.
\<close>

lemma set_objectEntries: "set (objectEntries lm) = set lm"
  by (auto simp: objectEntries_def)

lemma explore_then_maps:
  "treeObj (snd (explore_then t lm)) = treeObj (fst (fold exploreParent (objectEntries lm) (t, [])))"
  "depthMap (snd (explore_then t lm)) = depthMap (fst (fold exploreParent (objectEntries lm) (t, [])))"
  by (simp_all add: explore_then_def Let_def split: prod.splits)

lemma explore_Inr:
  assumes "explore src t = Inr (new, t')"
  obtains t0 lm lf where
    "treeObj t0 = treeObj t" "depthMap t0 = depthMap t"
    "fetch src (linkFetcher (if noDesirableBatches (linkFetcher t) then diversify t else t)) = Inr (lm, lf)"
    "(new, t') = explore_then t0 lm"
proof -
  let ?t0 = "if noDesirableBatches (linkFetcher t) then diversify t else t"
  from assms obtain lm lf where f: "fetch src (linkFetcher ?t0) = Inr (lm, lf)"
    and r: "(new, t') = explore_then (?t0\<lparr>linkFetcher := lf\<rparr>) lm"
    by (auto simp: explore_def Let_def split: if_splits sum.splits)
  have "treeObj (?t0\<lparr>linkFetcher := lf\<rparr>) = treeObj t" "depthMap (?t0\<lparr>linkFetcher := lf\<rparr>) = depthMap t"
    by (simp_all add: diversify_def)
  with f r show ?thesis using that by blast
qed

text \<open>
A step never touches the parent or the depth of a title that is in the tree.
\<close>

lemma explore_write_once:
  assumes "explore src t = Inr (new, t')" "x \<in> dom (treeObj t)"
  shows "treeObj t' x = treeObj t x \<and> depthMap t' x = depthMap t x"
proof -
  from assms(1) obtain t0 lm lf where t0: "treeObj t0 = treeObj t" "depthMap t0 = depthMap t"
    and r: "(new, t') = explore_then t0 lm"
    by (rule explore_Inr)
  have t': "t' = snd (explore_then t0 lm)" using r by (metis snd_conv)
  from assms(2) have "x \<in> dom (treeObj (fst (t0, [] :: string list)))" by (simp add: t0)
  from fold_exploreParent_agree [OF this, of "objectEntries lm"] show ?thesis
    by (simp add: t' explore_then_maps t0)
qed

lemma later_write_once:
  "later t t' \<Longrightarrow> x \<in> dom (treeObj t) \<Longrightarrow>
     x \<in> dom (treeObj t') \<and> treeObj t' x = treeObj t x \<and> depthMap t' x = depthMap t x"
proof (induction rule: later.induct)
  case now
  then show ?case by simp
next
  case (after t1 src new t2)
  then have x: "x \<in> dom (treeObj t1)" and eq: "treeObj t1 x = treeObj t x" "depthMap t1 x = depthMap t x"
    by simp_all
  from explore_write_once [OF after.hyps(2) x] eq x show ?case by (auto simp: domIff)
qed

text \<open>
The stages of a successful step.
\<close>

lemma explore_stages:
  assumes "explore src t = Inr (new, t')"
  obtains lm lf t1 where
    "fetch src (linkFetcher (if noDesirableBatches (linkFetcher t) then diversify t else t)) = Inr (lm, lf)"
    "fold exploreParent (objectEntries lm)
       ((if noDesirableBatches (linkFetcher t) then diversify t else t)\<lparr>linkFetcher := lf\<rparr>, []) = (t1, new)"
    "t' = (yieldPolicy (length new) t1)
            \<lparr>treeSize := treeSize (yieldPolicy (length new) t1) + length new,
             fringeSize := fringeSize (yieldPolicy (length new) t1) + int (length new)\<rparr>"
proof -
  let ?t0 = "if noDesirableBatches (linkFetcher t) then diversify t else t"
  from assms obtain lm lf where f: "fetch src (linkFetcher ?t0) = Inr (lm, lf)"
    and r: "(new, t') = explore_then (?t0\<lparr>linkFetcher := lf\<rparr>) lm"
    by (auto simp: explore_def Let_def split: if_splits sum.splits)
  obtain t1 n1 where
    fold: "fold exploreParent (objectEntries lm) (?t0\<lparr>linkFetcher := lf\<rparr>, []) = (t1, n1)"
    by (cases "fold exploreParent (objectEntries lm) (?t0\<lparr>linkFetcher := lf\<rparr>, [])")
  from r fold have "new = n1"
    and "t' = (yieldPolicy (length n1) t1)\<lparr>treeSize := treeSize (yieldPolicy (length n1) t1) + length n1,
        fringeSize := fringeSize (yieldPolicy (length n1) t1) + int (length n1)\<rparr>"
    by (simp_all add: explore_then_def Let_def)
  with f fold show ?thesis using that by blast
qed

text \<open>
Stage one: diversification.
\<close>

lemma held_addArticles_titles:
  assumes "\<forall>x\<in>set as. CHR ''|'' \<notin> set x" "b \<in> held (addArticles as lf)"
  shows "b \<in> held lf \<or> set (splitTitles (titlesParam b)) \<subseteq> set as"
proof -
  from addArticles_while_spec [of as "batches lf"] obtain cs where
    c: "concat cs = as"
    and each: "\<forall>c\<in>set cs. c \<noteq> [] \<and> length c \<le> 50 \<and> encodedLength (joinTitles (butlast c)) < 1500"
    and w: "addArticles_while as (batches lf) = batches lf @ map batchOf cs"
    by blast
  from assms(2) w have "b \<in> held lf \<or> b \<in> batchOf ` set cs"
    by (auto simp: held_def addArticles_def)
  then show ?thesis
  proof
    assume "b \<in> batchOf ` set cs"
    then obtain c where cs: "c \<in> set cs" and b: "b = batchOf c" by auto
    from cs c have sub: "set c \<subseteq> set as" by auto
    with assms(1) have "\<forall>y\<in>set c. CHR ''|'' \<notin> set y" by blast
    moreover from each cs have "c \<noteq> []" by blast
    ultimately have "splitTitles (titlesParam b) = c" unfolding b by (intro splitTitles_batchOf)
    with sub show ?thesis by simp
  qed simp
qed

lemma tree_ok_diversify:
  assumes "tree_ok r t"
  shows "tree_ok r (diversify t)"
proof -
  from assms have bar: "\<forall>x\<in>set (toExplore t). CHR ''|'' \<notin> set x"
    and sub: "set (toExplore t) \<subseteq> dom (treeObj t)"
    and h: "\<forall>b\<in>held (linkFetcher t). set (splitTitles (titlesParam b)) \<subseteq> dom (treeObj t)"
    unfolding tree_ok_def by blast+
  have "\<forall>b\<in>held (addArticles (toExplore t) (linkFetcher t)).
      set (splitTitles (titlesParam b)) \<subseteq> dom (treeObj t)"
  proof
    fix b assume "b \<in> held (addArticles (toExplore t) (linkFetcher t))"
    from held_addArticles_titles [OF bar this] h sub
    show "set (splitTitles (titlesParam b)) \<subseteq> dom (treeObj t)" by blast
  qed
  moreover have "tree_inv r (diversify t) = tree_inv r t"
    by (rule tree_inv_cong) (simp_all add: diversify_def)
  ultimately show ?thesis using assms by (simp add: tree_ok_def diversify_def)
qed

text \<open>
Stage two: the fetch.
\<close>

lemma fetch_good:
  assumes h: "honest src"
    and titles: "\<forall>b\<in>held lf. set (splitTitles (titlesParam b)) \<subseteq> dom (treeObj t)"
    and f: "fetch src lf = Inr (lm, lf')"
  shows "(\<forall>e\<in>set lm. entry_good t e) \<and>
         (\<forall>b\<in>held lf'. set (splitTitles (titlesParam b)) \<subseteq> dom (treeObj t))"
proof (cases "fetch_start lf")
  case (Pair st lf1)
  show ?thesis
  proof (cases st)
    case Immediate
    with Pair have "lf1 = lf" by (intro fetch_start_Immediate) simp
    with Immediate Pair f have "lm = []" "lf' = lf" by (simp_all add: fetch_def)
    with titles show ?thesis by simp
  next
    case (Thrown x)
    with Pair f show ?thesis by (simp add: fetch_def)
  next
    case (Issued b req)
    with Pair have start: "fetch_start lf = (Issued b req, lf1)" by simp
    note s = fetch_start_Issued [OF start]
    from f start s(1) obtain r where r: "src (direction lf) (titlesParam b) (continueParam b) = Inr r"
      and res: "fetch_then lf1 b r = (lm, lf')"
      by (auto simp: fetch_def split: sum.splits)
    from s(2,3) have "b \<in> held lf1" unfolding held_def by (metis UnI1 nth_mem)
    with s(4) titles have bt: "set (splitTitles (titlesParam b)) \<subseteq> dom (treeObj t)" by simp
    from h r have resp: "\<forall>e\<in>set (linkMap r). fst e \<in> set (splitTitles (titlesParam b)) \<and>
        (\<forall>x\<in>set (snd e). wellformed x)"
      unfolding honest_def by blast
    have 1: "\<forall>e\<in>set lm. entry_good t e"
    proof
      fix e assume e: "e \<in> set lm"
      have "e \<in> set (linkMap r) \<or> snd e = []"
      proof (cases "truthy (cursor r)")
        case True
        with res e show ?thesis by (simp add: fetch_then_def)
      next
        case False
        with res e have "e \<in> set (synthesize (articles b) (linkMap r))"
          by (auto simp: fetch_then_def)
        then show ?thesis by (rule synthesize_entries)
      qed
      with resp bt show "entry_good t e" unfolding entry_good_def by blast
    qed
    have 2: "\<forall>x\<in>held lf'. set (splitTitles (titlesParam x)) \<subseteq> dom (treeObj t)"
    proof
      fix x assume "x \<in> held lf'"
      with res have "x \<in> held (snd (fetch_then lf1 b r))" by simp
      from held_fetch_then [OF this] have "x \<in> held lf \<or> x = b\<lparr>continueParam := cursor r\<rparr>"
        by (simp add: s(4))
      then show "set (splitTitles (titlesParam x)) \<subseteq> dom (treeObj t)"
      proof
        assume "x \<in> held lf"
        with titles show ?thesis by blast
      next
        assume "x = b\<lparr>continueParam := cursor r\<rparr>"
        with bt show ?thesis by simp
      qed
    qed
    from 1 2 show ?thesis ..
  qed
qed

text \<open>
Stage three: the link map is folded into the tree.
\<close>

lemma fold_ok_exploreParent:
  assumes "fold_ok s" "\<forall>x\<in>set (snd e). CHR ''|'' \<notin> set x"
  shows "fold_ok (exploreParent e s)"
proof -
  obtain p cs where e: "e = (p, cs)" by (cases e)
  obtain t n where s: "s = (t, n)" by (cases s)
  let ?cs = "filter (\<lambda>c. c \<notin> dom (treeObj t) \<and> \<not> inherited c) cs"
  let ?s' = "fold (insertChild p) ?cs (exploreParent_tree p t, n)"
  have d: "dom (treeObj (fst ?s')) = dom (treeObj t) \<union> set ?cs"
    by (simp add: fold_insertChild_dom)
  have te: "toExplore (fst ?s') = toExplore t @ ?cs"
    by (simp add: fold_insertChild_toExplore exploreParent_tree_def)
  have sn: "snd ?s' = n @ ?cs" by (simp add: fold_insertChild_snd)
  from assms(1) have a: "set (toExplore t) \<subseteq> dom (treeObj t)" "set n \<subseteq> dom (treeObj t)"
    "\<forall>x\<in>dom (treeObj t). CHR ''|'' \<notin> set x"
    by (simp_all add: fold_ok_def s)
  have "fold_ok ?s'"
    unfolding fold_ok_def d te sn using a assms(2) by (auto simp: e)
  then show ?thesis by (simp add: e s exploreParent_unfold)
qed

lemma fold_ok_fold:
  assumes "fold_ok s" "\<forall>e\<in>set lm. \<forall>x\<in>set (snd e). CHR ''|'' \<notin> set x"
  shows "fold_ok (fold exploreParent lm s)"
  using assms
proof (induction lm arbitrary: s)
  case Nil
  then show ?case by simp
next
  case (Cons e lm)
  from Cons.prems have "fold_ok (exploreParent e s)" by (intro fold_ok_exploreParent) auto
  with Cons.IH [of "exploreParent e s"] Cons.prems(2) show ?case by simp
qed

lemma entry_good_ok: "entry_good t e \<Longrightarrow> entry_ok t e"
  by (auto simp: entry_good_def entry_ok_def wellformed_def)

lemma entry_good_bar: "entry_good t e \<Longrightarrow> \<forall>x\<in>set (snd e). CHR ''|'' \<notin> set x"
  by (auto simp: entry_good_def wellformed_def)

text \<open>
No new title is named like a property of \<^verbatim>\<open>Object.prototype\<close>.
\<close>

lemma exploreParent_new:
  assumes "\<forall>x\<in>set (snd s). \<not> inherited x"
  shows "\<forall>x\<in>set (snd (exploreParent e s)). \<not> inherited x"
proof -
  obtain p cs where e: "e = (p, cs)" by (cases e)
  obtain t n where s: "s = (t, n)" by (cases s)
  from assms show ?thesis
    by (auto simp: e s exploreParent_unfold fold_insertChild_snd)
qed

lemma fold_exploreParent_new:
  "\<forall>x\<in>set (snd s). \<not> inherited x \<Longrightarrow> \<forall>x\<in>set (snd (fold exploreParent lm s)). \<not> inherited x"
proof (induction lm arbitrary: s)
  case Nil
  then show ?case by simp
next
  case (Cons e lm)
  from Cons.IH [OF exploreParent_new [OF Cons.prems]] show ?case by simp
qed

lemma explore_new:
  assumes "explore src t = Inr (new, t')"
  shows "\<forall>x\<in>set new. \<not> inherited x"
proof -
  from assms obtain lm lf t1 where
    "fold exploreParent (objectEntries lm)
       ((if noDesirableBatches (linkFetcher t) then diversify t else t)\<lparr>linkFetcher := lf\<rparr>, []) = (t1, new)"
    by (rule explore_stages)
  with fold_exploreParent_new [of "((if noDesirableBatches (linkFetcher t) then diversify t else t)\<lparr>linkFetcher := lf\<rparr>, [])" "objectEntries lm"]
  show ?thesis by simp
qed

text \<open>
Stage four: the yield policy.
\<close>

lemma held_yieldPolicy: "held (linkFetcher (yieldPolicy k t)) = held (linkFetcher t)"
  by (simp add: yieldPolicy_def Let_def held_markLast held_markAll)

text \<open>
A step against an honest source keeps the tree in order, and its new titles are in the tree.
\<close>

lemma tree_ok_explore:
  assumes ok: "tree_ok r t" and h: "honest src" and ex: "explore src t = Inr (new, t')"
  shows "tree_ok r t' \<and> set new \<subseteq> dom (treeObj t')"
proof -
  define t0 where "t0 = (if noDesirableBatches (linkFetcher t) then diversify t else t)"
  from ex obtain lm lf t1 where
    f: "fetch src (linkFetcher t0) = Inr (lm, lf)"
    and fo: "fold exploreParent (objectEntries lm) (t0\<lparr>linkFetcher := lf\<rparr>, []) = (t1, new)"
    and t': "t' = (yieldPolicy (length new) t1)
            \<lparr>treeSize := treeSize (yieldPolicy (length new) t1) + length new,
             fringeSize := fringeSize (yieldPolicy (length new) t1) + int (length new)\<rparr>"
    unfolding t0_def by (rule explore_stages)
  have ok0: "tree_ok r t0" using ok by (simp add: t0_def tree_ok_diversify)
  then have titles0: "\<forall>b\<in>held (linkFetcher t0). set (splitTitles (titlesParam b)) \<subseteq> dom (treeObj t0)"
    unfolding tree_ok_def by blast
  define es where "es = objectEntries lm"
  note fo = fo [folded es_def]
  from fetch_good [OF h titles0 f]
  have "\<forall>e\<in>set lm. entry_good t0 e"
    and titles: "\<forall>b\<in>held lf. set (splitTitles (titlesParam b)) \<subseteq> dom (treeObj t0)"
    by blast+
  then have good: "\<forall>e\<in>set es. entry_good t0 e" by (simp add: es_def set_objectEntries)
  define s where "s = (t0\<lparr>linkFetcher := lf\<rparr>, [] :: string list)"
  have maps: "treeObj (fst s) = treeObj t0" "depthMap (fst s) = depthMap t0"
    by (simp_all add: s_def)
  have inv1: "tree_inv r (fst (fold exploreParent es s))"
  proof (rule tree_inv_fold_exploreParent)
    from ok0 have "tree_inv r t0" by (simp add: tree_ok_def)
    then show "tree_inv r (fst s)" by (simp add: tree_inv_cong [OF maps])
    show "\<forall>e\<in>set es. entry_ok (fst s) e"
    proof
      fix e assume "e \<in> set es"
      with good have "entry_ok t0 e" by (auto dest: entry_good_ok)
      then show "entry_ok (fst s) e" by (simp add: entry_ok_def maps)
    qed
  qed
  have "fold_ok s" using ok0 by (simp add: fold_ok_def tree_ok_def s_def)
  then have "fold_ok (fold exploreParent es s)"
    using good by (intro fold_ok_fold) (auto dest: entry_good_bar)
  with fo have fok: "set (toExplore t1) \<subseteq> dom (treeObj t1)" "set new \<subseteq> dom (treeObj t1)"
    "\<forall>x\<in>dom (treeObj t1). CHR ''|'' \<notin> set x"
    by (simp_all add: fold_ok_def s_def)
  from inv1 fo have inv: "tree_inv r t1" by (simp add: s_def)
  from fold_exploreParent_frame [of es s] fo have lf1: "linkFetcher t1 = lf" by (simp add: s_def)
  from fold_exploreParent_dom_mono [of s es] fo have mono: "dom (treeObj t0) \<subseteq> dom (treeObj t1)"
    by (simp add: s_def)
  have m': "treeObj t' = treeObj t1" "depthMap t' = depthMap t1" "toExplore t' = toExplore t1"
    by (simp_all add: t')
  have h': "held (linkFetcher t') = held lf" by (simp add: t' held_yieldPolicy lf1)
  have "tree_inv r t'" using inv by (simp add: tree_inv_cong [OF m'(1,2)])
  moreover have "\<forall>b\<in>held (linkFetcher t'). set (splitTitles (titlesParam b)) \<subseteq> dom (treeObj t')"
    using titles mono unfolding h' m' by blast
  ultimately show ?thesis using fok by (simp add: tree_ok_def m')
qed

lemma tree_ok_new:
  assumes "wellformed r"
  shows "tree_ok r (ArticleTree_new r d)"
proof -
  from assms have r: "r \<noteq> ''_root''" "CHR ''|'' \<notin> set r" by (simp_all add: wellformed_def)
  have "held (linkFetcher (ArticleTree_new r d)) =
      {\<lparr>articles = [], titlesParam = r, continueParam = None\<rparr>}"
    by (simp add: ArticleTree_new_def held_def fetcher_eval)
  moreover have "splitTitles r = [r]" using splitTitles_bars [OF r(2), of "[]"] by simp
  ultimately show ?thesis
    using r tree_inv_new [OF r(1), of d] by (simp add: tree_ok_def) (simp add: ArticleTree_new_def)
qed

lemma reachable_ok: "reachable r t \<Longrightarrow> tree_ok r t"
proof (induction rule: reachable.induct)
  case (start d)
  then show ?case by (rule tree_ok_new)
next
  case (step t src new t')
  from tree_ok_explore [OF step.IH step.hyps(2,3)] show ?case ..
qed

lemma reachable_tree_inv: "reachable r t \<Longrightarrow> tree_inv r t"
  using reachable_ok by (simp add: tree_ok_def)

lemma hydrogen_honest: "honest hydrogen_source"
  by (auto simp: honest_def hydrogen_source_def wellformed_def split: if_splits)

lemma hydrogen_wellformed: "wellformed ''Hydrogen''" "wellformed ''Penguin''"
  by (simp_all add: wellformed_def)

lemma hydrogen_forward_explore:
  "explore hydrogen_source (ArticleTree_new ''Hydrogen'' Forward) =
     Inr ([''Algae'', ''Water''], hydrogen_forward)"
  by (simp add: hydrogen_eval)

lemma penguin_backward_explore:
  "explore hydrogen_source (ArticleTree_new ''Penguin'' Backward) =
     Inr ([''Marine biology''], penguin_backward1)"
  "explore hydrogen_source penguin_backward1 = Inr ([''Algae''], penguin_backward)"
  by (simp_all add: hydrogen_eval)

lemma hydrogen_forward_reachable: "reachable ''Hydrogen'' hydrogen_forward"
  by (rule reachable.step [OF reachable.start [OF hydrogen_wellformed(1)] hydrogen_honest
        hydrogen_forward_explore])

lemma penguin_backward_reachable: "reachable ''Penguin'' penguin_backward"
  by (rule reachable.step [OF reachable.step [OF reachable.start [OF hydrogen_wellformed(2)]
        hydrogen_honest penguin_backward_explore(1)] hydrogen_honest penguin_backward_explore(2)])

text \<open>
  Claim C7. In a tree built from a root against honest link sources, every title but the
  root has a parent whose depth is a number, and its own depth is that number plus one.
  Whatever steps follow, against any link sources, every title of the tree stays in the
  tree with the same parent and the same depth.
\<close>

theorem depth_fixed_at_insertion:
  assumes "reachable r t"
  shows "(\<forall>x\<in>dom (treeObj t). x \<noteq> r \<longrightarrow>
            (\<exists>p d. treeObj t x = Some p \<and> depthMap t p = Some (Num d) \<and>
                    depthMap t x = Some (Num (d + 1))))
       \<and> (\<forall>t'. later t t' \<longrightarrow>
            (\<forall>x\<in>dom (treeObj t). x \<in> dom (treeObj t') \<and> treeObj t' x = treeObj t x \<and>
               depthMap t' x = depthMap t x))"
proof (intro conjI ballI impI allI)
  fix x assume x: "x \<in> dom (treeObj t)" "x \<noteq> r"
  then obtain p where p: "treeObj t x = Some p" by auto
  from reachable_tree_inv [OF assms] p x(2)
  obtain d where "depthMap t p = Some (Num d)" "depthMap t x = Some (Num (Suc d))"
    unfolding tree_inv_def by blast
  with p show "\<exists>p d. treeObj t x = Some p \<and> depthMap t p = Some (Num d) \<and>
      depthMap t x = Some (Num (d + 1))" by simp
next
  fix t' x
  assume "later t t'" "x \<in> dom (treeObj t)"
  then have w: "x \<in> dom (treeObj t') \<and> treeObj t' x = treeObj t x \<and> depthMap t' x = depthMap t x"
    by (rule later_write_once)
  from w show "x \<in> dom (treeObj t')" by simp
  from w show "treeObj t' x = treeObj t x" by simp
  from w show "depthMap t' x = depthMap t x" by simp
qed

theorem depth_fixed_at_insertion_witness:
  "reachable ''Hydrogen'' hydrogen_forward
   \<and> treeObj hydrogen_forward ''Water'' = Some ''Hydrogen''
   \<and> depthMap hydrogen_forward ''Hydrogen'' = Some (Num 0)
   \<and> depthMap hydrogen_forward ''Water'' = Some (Num (0 + 1))
   \<and> later hydrogen_forward (explore_tree algae_source hydrogen_forward)
   \<and> treeObj (explore_tree algae_source hydrogen_forward) ''Kelp'' = Some ''Algae''
   \<and> treeObj (explore_tree algae_source hydrogen_forward) ''Water'' = Some ''Hydrogen''
   \<and> depthMap (explore_tree algae_source hydrogen_forward) ''Water'' = Some (Num 1)"
proof -
  have w: "treeObj hydrogen_forward ''Water'' = Some ''Hydrogen''"
    and h: "depthMap hydrogen_forward ''Hydrogen'' = Some (Num 0)"
    by (simp_all add: hydrogen_eval)
  then have dom: "''Water'' \<in> dom (treeObj hydrogen_forward)" by auto
  have ex: "explore algae_source hydrogen_forward =
      Inr ([''Kelp''], explore_tree algae_source hydrogen_forward)"
    by (simp add: hydrogen_eval algae_source_def)
  have l: "later hydrogen_forward (explore_tree algae_source hydrogen_forward)"
    by (rule later.after [OF later.now ex])
  have k: "treeObj (explore_tree algae_source hydrogen_forward) ''Kelp'' = Some ''Algae''"
    by (simp add: hydrogen_eval algae_source_def)
  note part1 = depth_fixed_at_insertion [OF hydrogen_forward_reachable, THEN conjunct1]
    and part2 = depth_fixed_at_insertion [OF hydrogen_forward_reachable, THEN conjunct2]
  have ne: "''Water'' \<noteq> ''Hydrogen''" by simp
  from part1 [rule_format, OF dom ne] obtain p d where
    p: "treeObj hydrogen_forward ''Water'' = Some p" "depthMap hydrogen_forward p = Some (Num d)"
      "depthMap hydrogen_forward ''Water'' = Some (Num (d + 1))"
    by (elim exE conjE)
  from p(1) w have "p = ''Hydrogen''" by simp
  with p(2) h have "d = 0" by simp
  with p(3) have 1: "depthMap hydrogen_forward ''Water'' = Some (Num (0 + 1))" by simp
  from part2 [rule_format, OF l dom]
  have 2: "treeObj (explore_tree algae_source hydrogen_forward) ''Water'' =
        treeObj hydrogen_forward ''Water''"
    and 3: "depthMap (explore_tree algae_source hydrogen_forward) ''Water'' =
        depthMap hydrogen_forward ''Water''"
    by simp_all
  from 1 2 3 w h l k hydrogen_forward_reachable show ?thesis by simp
qed

section \<open>The path to the root\<close>

lemma pathToRoot_while_ok:
  assumes inv: "tree_inv r t"
  shows "x \<in> dom (treeObj t) \<Longrightarrow> depthMap t x = Some (Num n) \<Longrightarrow>
     \<exists>path. pathToRoot_while (treeObj t) x acc = Some (acc @ path) \<and> length path = n \<and>
            ancestorChain (treeObj t) x path \<and> last (x # path) = r"
proof (induction n arbitrary: x acc)
  case 0
  have "x = r"
  proof (rule ccontr)
    assume "x \<noteq> r"
    moreover from "0.prems"(1) obtain p where "treeObj t x = Some p" by auto
    ultimately obtain d where "depthMap t x = Some (Num (Suc d))"
      using inv unfolding tree_inv_def by blast
    with "0.prems"(2) show False by simp
  qed
  with inv have root: "treeObj t x = Some ''_root''" by (simp add: tree_inv_def)
  then have "pathToRoot_while (treeObj t) x acc = Some acc"
    by (subst pathToRoot_while.simps) simp
  with root \<open>x = r\<close> show ?case by (intro exI [of _ "[]"]) simp
next
  case (Suc n)
  from inv have "depthMap t r = Some (Num 0)" by (simp add: tree_inv_def)
  with Suc.prems(2) have xr: "x \<noteq> r" by auto
  from Suc.prems(1) obtain p where p: "treeObj t x = Some p" by auto
  with xr inv obtain d where pd: "p \<in> dom (treeObj t)" "depthMap t p = Some (Num d)"
    "depthMap t x = Some (Num (Suc d))"
    unfolding tree_inv_def by blast
  with Suc.prems(2) have d: "d = n" by simp
  from inv pd(1) have pr: "p \<noteq> ''_root''" by (auto simp: tree_inv_def)
  from Suc.IH [OF pd(1), of "acc @ [p]"] pd(2) d obtain path where
    w: "pathToRoot_while (treeObj t) p (acc @ [p]) = Some ((acc @ [p]) @ path)"
    and l: "length path = n" and c: "ancestorChain (treeObj t) p path"
    and e: "last (p # path) = r"
    by blast
  have "pathToRoot_while (treeObj t) x acc = pathToRoot_while (treeObj t) p (acc @ [p])"
    using p pr by (subst pathToRoot_while.simps) simp
  with w l c e p pr show ?case by (intro exI [of _ "p # path"]) simp
qed

lemma pathToRoot_ok:
  assumes "tree_inv r t" "x \<in> dom (treeObj t)"
  shows "\<exists>path. pathToRoot t x = Some (Inr path) \<and> ancestorChain (treeObj t) x path \<and>
           depthMap t x = Some (Num (length path)) \<and> last (x # path) = r"
proof -
  from tree_inv_depth [OF assms] obtain n where n: "depthMap t x = Some (Num n)" by blast
  from pathToRoot_while_ok [OF assms(1) assms(2) n, of "[]"] obtain path where
    "pathToRoot_while (treeObj t) x [] = Some path" "length path = n"
    "ancestorChain (treeObj t) x path" "last (x # path) = r"
    by auto
  with n assms(2) show ?thesis by (simp add: pathToRoot_def containsPage_def)
qed

text \<open>
  In a tree built from a root against honest link sources, \<^verbatim>\<open>pathToRoot\<close>
  returns, for every title of the tree, the chain of its ancestors, nearest parent first
  and without the sentinel, and the length of the chain is the depth of the title; for
  the root it returns the empty path. For a title that is not in the tree it fails with
  \<open>InvalidTitle\<close> unless the title is named like a property of
  \<^verbatim>\<open>Object.prototype\<close>; for such a title it returns no path and does not fail.
\<close>

lemma pathToRoot_chain:
  assumes "reachable r t"
  shows "(\<forall>x\<in>dom (treeObj t).
            \<exists>path. pathToRoot t x = Some (Inr path) \<and> ancestorChain (treeObj t) x path \<and>
                   depthMap t x = Some (Num (length path)))
       \<and> r \<in> dom (treeObj t) \<and> pathToRoot t r = Some (Inr [])
       \<and> (\<forall>x. x \<notin> dom (treeObj t) \<and> \<not> inherited x \<longrightarrow> pathToRoot t x = Some (Inl InvalidTitle))
       \<and> (\<forall>x. x \<notin> dom (treeObj t) \<and> inherited x \<longrightarrow> pathToRoot t x = None)"
proof -
  note inv = reachable_tree_inv [OF assms]
  have 1: "\<forall>x\<in>dom (treeObj t).
            \<exists>path. pathToRoot t x = Some (Inr path) \<and> ancestorChain (treeObj t) x path \<and>
                   depthMap t x = Some (Num (length path))"
    using pathToRoot_ok [OF inv] by blast
  from inv have r: "treeObj t r = Some ''_root''" by (simp add: tree_inv_def)
  then have 2: "r \<in> dom (treeObj t)" by auto
  have "pathToRoot_while (treeObj t) r [] = Some []"
    using r by (subst pathToRoot_while.simps) simp
  with 2 have 3: "pathToRoot t r = Some (Inr [])" by (simp add: pathToRoot_def containsPage_def)
  have 4: "\<forall>x. x \<notin> dom (treeObj t) \<and> \<not> inherited x \<longrightarrow> pathToRoot t x = Some (Inl InvalidTitle)"
    by (simp add: pathToRoot_def containsPage_def)
  have 5: "\<forall>x. x \<notin> dom (treeObj t) \<and> inherited x \<longrightarrow> pathToRoot t x = None"
  proof (intro allI impI)
    fix x assume x: "x \<notin> dom (treeObj t) \<and> inherited x"
    then have "treeObj t x = None" by auto
    then have "pathToRoot_while (treeObj t) x [] = None"
      by (subst pathToRoot_while.simps) simp
    with x show "pathToRoot t x = None" by (simp add: pathToRoot_def containsPage_def)
  qed
  from 1 2 3 4 5 show ?thesis by blast
qed


section \<open>The orchestrator\<close>

lemma findCollision_Some:
  "findCollision f b cmp new col = Some (Inr (Some c)) \<Longrightarrow>
     col = Some c \<or> c \<in> set new \<and> containsPage cmp c"
proof (induction new arbitrary: col)
  case Nil
  then show ?case by simp
next
  case (Cons a new)
  show ?case
  proof (cases "containsPage cmp a")
    case False
    with Cons.prems have "findCollision f b cmp new col = Some (Inr (Some c))" by simp
    from Cons.IH [OF this] show ?thesis by auto
  next
    case True
    from Cons.prems True obtain pf where pf: "pathToRoot f a = Some (Inr pf)"
      by (cases "pathToRoot f a"; cases "the (pathToRoot f a)") auto
    from Cons.prems True pf obtain pb where pb: "pathToRoot b a = Some (Inr pb)"
      by (cases "pathToRoot b a"; cases "the (pathToRoot b a)") auto
    define col' where "col' = (if length pf + length pb < Number_MAX_VALUE then Some a else col)"
    from Cons.prems True pf pb have "findCollision f b cmp new col' = Some (Inr (Some c))"
      by (simp add: Let_def col'_def)
    from Cons.IH [OF this] have "col' = Some c \<or> c \<in> set new \<and> containsPage cmp c" .
    with True show ?thesis by (auto simp: col'_def split: if_splits)
  qed
qed

lemma truthy_Some: "truthy col \<Longrightarrow> col = Some (the col)"
  by (cases col) (simp_all add: truthy_def)

text \<open>
One turn of \<^verbatim>\<open>algorithm\<close> that ends the search.
\<close>

lemma collision_in_both:
  assumes r: "reachable s t" and h: "honest src" and ex: "explore src t = Inr (new, t')"
    and fc: "findCollision f b cmp new None = Some (Inr col)" and tr: "truthy col"
  shows "reachable s t' \<and> the col \<in> dom (treeObj t') \<and> the col \<in> dom (treeObj cmp)"
proof -
  from r h ex have r': "reachable s t'" by (rule reachable.step)
  from tree_ok_explore [OF reachable_ok [OF r] h ex] have sub: "set new \<subseteq> dom (treeObj t')" ..
  from fc truthy_Some [OF tr] have "findCollision f b cmp new None = Some (Inr (Some (the col)))"
    by simp
  from findCollision_Some [OF this] have "the col \<in> set new" "containsPage cmp (the col)"
    by simp_all
  moreover from this(1) explore_new [OF ex] have "\<not> inherited (the col)" by blast
  ultimately show ?thesis using sub r' by (auto simp: containsPage_def)
qed

text \<open>
  When \<^verbatim>\<open>algorithm\<close> returns a collision, both trees are built against the honest
  source and have the collision among their titles.
\<close>

lemma algorithm_result:
  assumes "algorithm src f0 b0 = Some y"
  shows "honest src \<longrightarrow> reachable s f0 \<longrightarrow> reachable e b0 \<longrightarrow>
     (\<forall>c f b. y = Inr (c, f, b) \<longrightarrow>
        reachable s f \<and> reachable e b \<and> c \<in> dom (treeObj f) \<and> c \<in> dom (treeObj b))"
proof (rule algorithm.raw_induct
    [where P = "\<lambda>src f0 b0 y. honest src \<longrightarrow> reachable s f0 \<longrightarrow> reachable e b0 \<longrightarrow>
       (\<forall>c f b. y = Inr (c, f, b) \<longrightarrow>
          reachable s f \<and> reachable e b \<and> c \<in> dom (treeObj f) \<and> c \<in> dom (treeObj b))",
     OF _ assms], goal_cases)
  case (1 alg src f0 b0 y)
  note IH = 1(1) and body = 1(2)
  show ?case
  proof (intro impI allI)
    fix c f b
    assume h: "honest src" and rf: "reachable s f0" and rb: "reachable e b0"
      and y: "y = Inr (c, f, b)"
    show "reachable s f \<and> reachable e b \<and> c \<in> dom (treeObj f) \<and> c \<in> dom (treeObj b)"
    proof (cases "fringeSize f0 \<le> fringeSize b0")
      case True
      with body y obtain new f' col where
        ex: "explore src f0 = Inr (new, f')"
        and fc: "findCollision f' b0 b0 new None = Some (Inr col)"
        and res: "(if truthy col then Some (Inr (the col, f', b0)) else alg src f' b0)
            = Some (Inr (c, f, b))"
        by (auto split: sum.splits option.splits prod.splits)
      show ?thesis
      proof (cases "truthy col")
        case t: True
        with res have "c = the col" "f = f'" "b = b0" by simp_all
        with collision_in_both [OF rf h ex fc t] rb show ?thesis by simp
      next
        case False
        with res have "alg src f' b0 = Some (Inr (c, f, b))" by simp
        from IH [OF this] h reachable.step [OF rf h ex] rb show ?thesis by blast
      qed
    next
      case False
      with body y obtain new b' col where
        ex: "explore src b0 = Inr (new, b')"
        and fc: "findCollision f0 b' f0 new None = Some (Inr col)"
        and res: "(if truthy col then Some (Inr (the col, f0, b')) else alg src f0 b')
            = Some (Inr (c, f, b))"
        by (auto split: sum.splits option.splits prod.splits)
      show ?thesis
      proof (cases "truthy col")
        case t: True
        with res have "c = the col" "f = f0" "b = b'" by simp_all
        with collision_in_both [OF rb h ex fc t] rf show ?thesis by simp
      next
        case False
        with res have "alg src f0 b' = Some (Inr (c, f, b))" by simp
        from IH [OF this] h reachable.step [OF rb h ex] rf show ?thesis by blast
      qed
    qed
  qed
qed

text \<open>
  Claim C9. When \<^verbatim>\<open>algorithm\<close> returns a collision \<open>c\<close> for an honest link
  source and well-formed start and end titles, \<^verbatim>\<open>pathToRoot\<close> succeeds on \<open>c\<close> in
  both trees and \<^verbatim>\<open>wikigameSolve\<close> returns the reversed forward path, then \<open>c\<close>,
  then the backward path: a sequence that starts at the start title, follows parent
  pointers of the forward tree to \<open>c\<close> and of the backward tree from \<open>c\<close>, and ends at
  the end title.
\<close>

theorem solve_returns_joined_path:
  assumes "honest src" "wellformed start" "wellformed end"
    and "algorithm src (ArticleTree_new start Forward) (ArticleTree_new end Backward)
           = Some (Inr (c, f, b))"
  shows "\<exists>pf pb. pathToRoot f c = Some (Inr pf) \<and> pathToRoot b c = Some (Inr pb)
           \<and> wikigameSolve src start end = Some (Inr (rev pf @ [c] @ pb))
           \<and> ancestorChain (treeObj f) c pf \<and> ancestorChain (treeObj b) c pb
           \<and> hd (rev pf @ [c] @ pb) = start \<and> last (rev pf @ [c] @ pb) = end"
proof -
  from algorithm_result [OF assms(4), of start "end"] assms(1)
    reachable.start [OF assms(2), of Forward] reachable.start [OF assms(3), of Backward]
  have rf: "reachable start f" and rb: "reachable end b"
    and cf: "c \<in> dom (treeObj f)" and cb: "c \<in> dom (treeObj b)"
    by blast+
  from pathToRoot_ok [OF reachable_tree_inv [OF rf], of c] cf obtain pf where
    pf: "pathToRoot f c = Some (Inr pf)" "ancestorChain (treeObj f) c pf" "last (c # pf) = start"
    by auto
  from pathToRoot_ok [OF reachable_tree_inv [OF rb], of c] cb obtain pb where
    pb: "pathToRoot b c = Some (Inr pb)" "ancestorChain (treeObj b) c pb" "last (c # pb) = end"
    by auto
  have w: "wikigameSolve src start end = Some (Inr (rev pf @ [c] @ pb))"
    by (simp add: wikigameSolve_def assms(4) buildPath_def pf(1) pb(1))
  have hd: "hd (rev pf @ [c] @ pb) = start"
    using pf(3) by (cases pf rule: rev_cases) (simp_all add: hd_append last_rev)
  have la: "last (rev pf @ [c] @ pb) = end"
    using pb(3) by (cases pb) simp_all
  from pf(1,2) pb(1,2) w hd la show ?thesis by blast
qed

text \<open>
  From Hydrogen to Penguin, with Algae the collision, the path returned is Hydrogen,
  Algae, Marine biology, Penguin.
\<close>

theorem solve_returns_joined_path_witness:
  "honest hydrogen_source \<and> wellformed ''Hydrogen'' \<and> wellformed ''Penguin''
   \<and> algorithm hydrogen_source (ArticleTree_new ''Hydrogen'' Forward)
        (ArticleTree_new ''Penguin'' Backward)
      = Some (Inr (''Algae'', hydrogen_forward, penguin_backward))
   \<and> pathToRoot hydrogen_forward ''Algae'' = Some (Inr [''Hydrogen''])
   \<and> pathToRoot penguin_backward ''Algae'' = Some (Inr [''Marine biology'', ''Penguin''])
   \<and> wikigameSolve hydrogen_source ''Hydrogen'' ''Penguin''
      = Some (Inr [''Hydrogen'', ''Algae'', ''Marine biology'', ''Penguin''])"
proof -
  have alg: "algorithm hydrogen_source (ArticleTree_new ''Hydrogen'' Forward)
        (ArticleTree_new ''Penguin'' Backward)
      = Some (Inr (''Algae'', hydrogen_forward, penguin_backward))"
    apply (subst algorithm.simps)
    apply (simp add: hydrogen_eval)
    apply (subst algorithm.simps)
    apply (simp add: hydrogen_eval)
    apply (subst algorithm.simps)
    apply (simp add: hydrogen_eval pathToRoot_while.simps small_lt_MAX)
    done
  have f: "pathToRoot hydrogen_forward ''Algae'' = Some (Inr [''Hydrogen''])"
    by (simp add: hydrogen_eval pathToRoot_while.simps)
  have b: "pathToRoot penguin_backward ''Algae'' = Some (Inr [''Marine biology'', ''Penguin''])"
    by (simp add: hydrogen_eval pathToRoot_while.simps)
  from solve_returns_joined_path [OF hydrogen_honest hydrogen_wellformed alg] obtain pf pb where
    p: "pathToRoot hydrogen_forward ''Algae'' = Some (Inr pf)"
      "pathToRoot penguin_backward ''Algae'' = Some (Inr pb)"
      "wikigameSolve hydrogen_source ''Hydrogen'' ''Penguin'' = Some (Inr (rev pf @ [''Algae''] @ pb))"
    by (elim exE conjE)
  from p(1) f have "pf = [''Hydrogen'']" by simp
  moreover from p(2) b have "pb = [''Marine biology'', ''Penguin'']" by simp
  ultimately have "wikigameSolve hydrogen_source ''Hydrogen'' ''Penguin''
      = Some (Inr [''Hydrogen'', ''Algae'', ''Marine biology'', ''Penguin''])"
    using p(3) by simp
  with alg f b hydrogen_honest hydrogen_wellformed show ?thesis by simp
qed

text \<open>
  Whatever the distances, the loop of the orchestrator ends with the last new title that
  is in the other tree.
\<close>

lemma findCollision_last:
  assumes "\<forall>a\<in>set new. containsPage cmp a \<longrightarrow>
      (\<exists>pf pb. pathToRoot f a = Some (Inr pf) \<and> pathToRoot b a = Some (Inr pb) \<and>
         length pf + length pb < 2 ^ 32)"
  shows "findCollision f b cmp new col =
      Some (Inr (case filter (containsPage cmp) new of [] \<Rightarrow> col | x # xs \<Rightarrow> Some (last (x # xs))))"
  using assms
proof (induction new arbitrary: col)
  case Nil
  then show ?case by simp
next
  case (Cons a new)
  from Cons.prems have rest: "\<forall>a\<in>set new. containsPage cmp a \<longrightarrow>
      (\<exists>pf pb. pathToRoot f a = Some (Inr pf) \<and> pathToRoot b a = Some (Inr pb) \<and>
         length pf + length pb < 2 ^ 32)" by simp
  show ?case
  proof (cases "containsPage cmp a")
    case False
    with Cons.IH [OF rest, of col] show ?thesis by simp
  next
    case True
    with Cons.prems obtain pf pb where p: "pathToRoot f a = Some (Inr pf)"
      "pathToRoot b a = Some (Inr pb)" "length pf + length pb < 2 ^ 32"
      by auto
    from p(3) have "length pf + length pb < Number_MAX_VALUE" by (rule small_lt_MAX)
    with True p have "findCollision f b cmp (a # new) col = findCollision f b cmp new (Some a)"
      by (simp add: Let_def)
    with Cons.IH [OF rest, of "Some a"] True show ?thesis
      by (simp split: list.splits)
  qed
qed

text \<open>
  Claim C1. Among the titles that collide in one expansion step, the one chosen should
  minimise the sum of the lengths of its two paths to the roots. The code compares each
  distance with \<^verbatim>\<open>bestCollisionDistance\<close>, which it never updates, so the last
  colliding title wins. In the fourth step of the search from S to E the new titles are
  P and Q, both in the backward tree; P has distance \<open>2 + 1\<close>, Q has distance
  \<open>2 + 2\<close>, and the code chooses Q and returns a path of five titles through Q and P.
\<close>

theorem collision_choice_takes_last:
  "(case explore detour_source detour_forward of
      Inl e \<Rightarrow> False
    | Inr (newArticles, forwardTree) \<Rightarrow>
        newArticles = [''P'', ''Q'']
        \<and> containsPage detour_backward ''P'' \<and> containsPage detour_backward ''Q''
        \<and> pathToRoot forwardTree ''P'' = Some (Inr [''A'', ''S''])
        \<and> pathToRoot detour_backward ''P'' = Some (Inr [''E''])
        \<and> pathToRoot forwardTree ''Q'' = Some (Inr [''A'', ''S''])
        \<and> pathToRoot detour_backward ''Q'' = Some (Inr [''P'', ''E''])
        \<and> findCollision forwardTree detour_backward detour_backward newArticles None
            = Some (Inr (Some ''Q'')))
   \<and> wikigameSolve detour_source ''S'' ''E'' = Some (Inr [''S'', ''A'', ''Q'', ''P'', ''E''])"
proof (rule conjI)
  show "(case explore detour_source detour_forward of
      Inl e \<Rightarrow> False
    | Inr (newArticles, forwardTree) \<Rightarrow>
        newArticles = [''P'', ''Q'']
        \<and> containsPage detour_backward ''P'' \<and> containsPage detour_backward ''Q''
        \<and> pathToRoot forwardTree ''P'' = Some (Inr [''A'', ''S''])
        \<and> pathToRoot detour_backward ''P'' = Some (Inr [''E''])
        \<and> pathToRoot forwardTree ''Q'' = Some (Inr [''A'', ''S''])
        \<and> pathToRoot detour_backward ''Q'' = Some (Inr [''P'', ''E''])
        \<and> findCollision forwardTree detour_backward detour_backward newArticles None
            = Some (Inr (Some ''Q'')))"
    by (simp add: detour_eval)
  show "wikigameSolve detour_source ''S'' ''E'' = Some (Inr [''S'', ''A'', ''Q'', ''P'', ''E''])"
    unfolding wikigameSolve_def
    apply (subst algorithm.simps)
    apply (simp add: tree_eval fetcher_eval detour_source_def)
    apply (subst algorithm.simps)
    apply (simp add: tree_eval fetcher_eval detour_source_def)
    apply (subst algorithm.simps)
    apply (simp add: tree_eval fetcher_eval detour_source_def)
    apply (subst algorithm.simps)
    apply (simp add: detour_eval)
    done
qed

end
